theory Spec2Isabelle
  imports Main "HOL-Library.AList" "HOL-Library.Char_ord" "HOL-Library.List_Lexorder"
begin

section \<open>JavaScript numbers\<close>

text \<open>
  Every number the handlers compute with is an IEEE 754 double. The numbers that reach
  them (the points of a request, the points the driver reads from a row) are integers
  that are doubles, and \<^verbatim>\<open>+\<close> and \<^verbatim>\<open>-\<close> give the exact result rounded to the nearest
  double, a tie going to the double with the even significand. Up to \<open>2^53\<close> every
  integer is a double; at a magnitude \<open>a\<close> beyond it neighbouring doubles are
  \<open>scale a 1\<close> apart, the least power of two \<open>q\<close> with \<open>a < 2^53 * q\<close>.
\<close>

function scale :: "int \<Rightarrow> int \<Rightarrow> int" where
  "scale a q = (if 0 < q \<and> 2 ^ 53 * q \<le> a then scale a (2 * q) else q)"
  by pat_completeness auto
termination
  by (relation "measure (\<lambda>(a, q). nat (a - q))") auto

declare scale.simps [simp del]

text \<open>The multiple of \<open>q\<close> nearest to \<open>a\<close>; of two nearest ones, the even multiple.\<close>

definition nearest :: "int \<Rightarrow> int \<Rightarrow> int" where
  "nearest q a =
     (let m = a div q; r = a mod q
      in if 2 * r < q \<or> (2 * r = q \<and> even m) then m * q else (m + 1) * q)"

definition round53 :: "int \<Rightarrow> int" where
  "round53 x = (if \<bar>x\<bar> \<le> 2 ^ 53 then x else sgn x * nearest (scale \<bar>x\<bar> 1) \<bar>x\<bar>)"

text \<open>The integers that are doubles: rounding leaves them, and they are finite.\<close>

definition is_double :: "int \<Rightarrow> bool" where
  "is_double n = (round53 n = n \<and> \<bar>n\<bar> < 2 ^ 1024)"

text \<open>
  The values that arise in the handlers: integers, the infinities (a sum that rounds to
  \<open>2^1024\<close> or beyond overflows), \<^verbatim>\<open>NaN\<close>, and strings of the form "text of an
  inherited property, followed by some numbers as JavaScript prints them": \<open>Str k ns\<close>
  stands for the string that \<^verbatim>\<open>({})[k]\<close> converts to, followed by the text of each
  number of \<open>ns\<close>.
\<close>

datatype jsval = Num int | Infinity | Minus_Infinity | NaN | Str string "int list"

text \<open>The double for an exact result \<open>x\<close>.\<close>

definition double :: "int \<Rightarrow> jsval" where
  "double x =
     (let y = round53 x
      in if 2 ^ 1024 \<le> y then Infinity else if y \<le> - (2 ^ 1024) then Minus_Infinity
         else Num y)"

text \<open>
  The result of an operation on \<open>a\<close> and \<open>b\<close> whose exact result is \<open>x\<close>. An integer
  that is no double cannot reach the handlers: JSON parsing and the driver deliver
  doubles, and every result is rounded. On such operands the embedding computes
  exactly, as with mathematical integers.
\<close>

definition number :: "int \<Rightarrow> int \<Rightarrow> int \<Rightarrow> jsval" where
  "number a b x = (if is_double a \<and> is_double b then double x else Num x)"

text \<open>
  \<^verbatim>\<open>a - b\<close> where the loop uses it, with \<open>0 < b \<le> a\<close>: the result lies between \<open>0\<close>
  and \<open>a\<close>, so it is finite.
\<close>

definition js_sub :: "int \<Rightarrow> int \<Rightarrow> int" where
  "js_sub a b = (if is_double a \<and> is_double b then round53 (a - b) else a - b)"

text \<open>
  \<^verbatim>\<open>v + p\<close> for a value \<open>v\<close> and a number \<open>p\<close>: numbers are added, a string is
  extended by the text of \<open>p\<close>.
\<close>

fun js_add :: "jsval \<Rightarrow> int \<Rightarrow> jsval" where
  "js_add (Num n) p = number n p (n + p)"
| "js_add Infinity p = Infinity"
| "js_add Minus_Infinity p = Minus_Infinity"
| "js_add NaN p = NaN"
| "js_add (Str s ns) p = Str s (ns @ [p])"

text \<open>\<^verbatim>\<open>v < p\<close>: false for \<^verbatim>\<open>NaN\<close> and for a string that is no numeral.\<close>

fun js_less :: "jsval \<Rightarrow> int \<Rightarrow> bool" where
  "js_less (Num n) p = (n < p)"
| "js_less Infinity p = False"
| "js_less Minus_Infinity p = True"
| "js_less NaN p = False"
| "js_less (Str s ns) p = False"

section \<open>The Points table\<close>

text \<open>
  The service keeps one SQLite table,
  \<^verbatim>\<open>Points(id INTEGER PRIMARY KEY UNIQUE, payer TEXT NOT NULL, points INTEGER NOT NULL,
  timestamp TEXT NOT NULL)\<close>.
  A row is a record with the four columns (the column \<open>id\<close> is written \<open>id'\<close>, since
  \<open>id\<close> is the identity function of HOL). Points are integers; the service stores only
  numbers that are doubles. Texts are byte strings; \<open>ORDER BY timestamp\<close> compares
  them bytewise, which is the lexicographic order on \<open>char list\<close>.
\<close>

record grant =
  id' :: nat
  payer :: string
  points :: int
  timestamp :: string

text \<open>
  The three statements of the source, with the parameters bound to their placeholders.
  The store is the list of rows in rowid order together with a journal of the statements
  that were executed against it, so that "the handler did not touch the store" is a
  statement about the journal. The driver's own failures (I/O errors, which the handlers
  turn into the 500 response) are outside this store: every statement succeeds.
\<close>

datatype statement =
    INSERT_POINTS_SQL string int string
  | GET_POINTS_SQL
  | UPDATE_POINTS_SQL int nat

record db =
  rows :: "grant list"
  journal :: "statement list"

definition empty_db :: db where
  "empty_db = \<lparr>rows = [], journal = []\<rparr>"

text \<open>
  \<^verbatim>\<open>db.get(INSERT_POINTS_SQL, payer, points, timestamp)\<close>: SQLite gives a new row of an
  \<open>INTEGER PRIMARY KEY\<close> table the largest rowid in the table plus one (one in an empty
  table), and \<open>RETURNING id\<close> hands it back.
\<close>

definition db_get :: "db \<Rightarrow> string \<Rightarrow> int \<Rightarrow> string \<Rightarrow> db \<times> nat" where
  "db_get db p n t =
     (let i = Suc (fold max (map id' (rows db)) 0) in
        (db\<lparr>rows := rows db @ [\<lparr>id' = i, payer = p, points = n, timestamp = t\<rparr>],
            journal := journal db @ [INSERT_POINTS_SQL p n t]\<rparr>, i))"

text \<open>
  \<^verbatim>\<open>db.all(GET_POINTS_SQL)\<close>: all rows by ascending timestamp; rows with equal
  timestamps stay in rowid order (\<open>sort_key\<close> is a stable insertion sort).
\<close>

definition db_all :: "db \<Rightarrow> db \<times> grant list" where
  "db_all db = (db\<lparr>journal := journal db @ [GET_POINTS_SQL]\<rparr>, sort_key timestamp (rows db))"

text \<open>\<^verbatim>\<open>db.run(UPDATE_POINTS_SQL, n, i)\<close>: every row whose id is \<open>i\<close> gets the points \<open>n\<close>.\<close>

definition db_run :: "db \<Rightarrow> int \<Rightarrow> nat \<Rightarrow> db" where
  "db_run db n i =
     db\<lparr>rows := map (\<lambda>r. if id' r = i then r\<lparr>points := n\<rparr> else r) (rows db),
        journal := journal db @ [UPDATE_POINTS_SQL n i]\<rparr>"

section \<open>JavaScript objects used as dictionaries\<close>

text \<open>
  Both \<^verbatim>\<open>spendSummary\<close> and \<^verbatim>\<open>result\<close> are object literals \<^verbatim>\<open>{}\<close> indexed by the
  payer's name. Such an object has own properties, kept in creation order, and inherits
  the properties of \<^verbatim>\<open>Object.prototype\<close>.
\<close>

type_synonym object = "(string \<times> jsval) list"

text \<open>The property names of \<^verbatim>\<open>Object.prototype\<close> (ECMAScript, with its Annex B).\<close>

definition Object_prototype :: "string list" where
  "Object_prototype =
     [''constructor'', ''hasOwnProperty'', ''isPrototypeOf'', ''propertyIsEnumerable'',
      ''toLocaleString'', ''toString'', ''valueOf'', ''__defineGetter__'',
      ''__defineSetter__'', ''__lookupGetter__'', ''__lookupSetter__'', ''__proto__'']"

text \<open>
  Reading \<^verbatim>\<open>obj[k]\<close>: an own property, else an inherited one (a function, or for
  \<^verbatim>\<open>__proto__\<close> the prototype object itself), else \<^verbatim>\<open>undefined\<close>.
\<close>

datatype property = Own jsval | Inherited | Undefined

definition get_property :: "object \<Rightarrow> string \<Rightarrow> property" where
  "get_property obj k =
     (case map_of obj k of
        Some v \<Rightarrow> Own v
      | None \<Rightarrow> if k \<in> set Object_prototype then Inherited else Undefined)"

text \<open>
  Writing \<^verbatim>\<open>obj[k] = v\<close> for a number or string \<open>v\<close>: an own property keeps its place, a
  new one is created last. The inherited \<^verbatim>\<open>__proto__\<close> is an accessor whose setter
  ignores every value that is not an object, so the write is lost.
\<close>

definition set_property :: "object \<Rightarrow> string \<Rightarrow> jsval \<Rightarrow> object" where
  "set_property obj k v = (if k = ''__proto__'' then obj else AList.update k v obj)"

text \<open>Truthiness of what was read: \<open>0\<close>, \<^verbatim>\<open>NaN\<close> and \<^verbatim>\<open>undefined\<close> are falsy.\<close>

fun truthy :: "property \<Rightarrow> bool" where
  "truthy (Own (Num n)) = (n \<noteq> 0)"
| "truthy (Own Infinity) = True"
| "truthy (Own Minus_Infinity) = True"
| "truthy (Own NaN) = False"
| "truthy (Own (Str s ns)) = True"
| "truthy Inherited = True"
| "truthy Undefined = False"

text \<open>
  \<^verbatim>\<open>x - d\<close> converts \<open>x\<close> to a number first: a function, an object and a string that is
  not a numeral all convert to \<^verbatim>\<open>NaN\<close>.
\<close>

fun js_minus :: "property \<Rightarrow> int \<Rightarrow> jsval" where
  "js_minus (Own (Num n)) d = number n d (n - d)"
| "js_minus (Own Infinity) d = Infinity"
| "js_minus (Own Minus_Infinity) d = Minus_Infinity"
| "js_minus x d = NaN"

text \<open>
  \<^verbatim>\<open>x + p\<close> adds numbers, and concatenates when \<open>x\<close> is a string or converts to one
  (a function or an object does). The first argument is the key that was read.
\<close>

fun js_plus :: "string \<Rightarrow> property \<Rightarrow> int \<Rightarrow> jsval" where
  "js_plus k (Own v) p = js_add v p"
| "js_plus k Inherited p = Str k [p]"
| "js_plus k Undefined p = NaN"

text \<open>
  The order in which \<^verbatim>\<open>Object.entries\<close> and \<^verbatim>\<open>JSON.stringify\<close> list own properties:
  first the keys that are array indices (the canonical decimal numeral of an integer
  below \<open>2^32 - 1\<close>) by ascending value, then all other keys in creation order.
\<close>

definition decimal :: "string \<Rightarrow> nat" where
  "decimal s = foldl (\<lambda>a c. 10 * a + (of_char c - 48)) 0 s"

definition array_index :: "string \<Rightarrow> nat option" where
  "array_index s =
     (if s \<noteq> [] \<and> list_all (\<lambda>c. c \<in> set ''0123456789'') s
         \<and> (s = ''0'' \<or> hd s \<noteq> CHR ''0'') \<and> decimal s < 2 ^ 32 - 1
      then Some (decimal s) else None)"

definition own_keys :: "string list \<Rightarrow> string list" where
  "own_keys ks =
     sort_key (\<lambda>k. the (array_index k)) (filter (\<lambda>k. array_index k \<noteq> None) ks)
       @ filter (\<lambda>k. array_index k = None) ks"

definition Object_entries :: "object \<Rightarrow> (string \<times> jsval) list" where
  "Object_entries obj = map (\<lambda>k. (k, the (map_of obj k))) (own_keys (map fst obj))"

section \<open>The handlers\<close>

text \<open>
  A response is a status code and a body. Request bodies are read at the types the API
  documents: \<open>payer\<close> and \<open>timestamp\<close> are strings, \<open>points\<close> is an integer, and each
  of them may be absent (\<open>None\<close>: \<^verbatim>\<open>undefined\<close> or \<^verbatim>\<open>null\<close>). The locals of the
  handlers carry a prime where their name is a column of the table.
\<close>

datatype body =
    Msg string
  | Msg_id string nat
  | Text string
  | Payer_points "(string \<times> jsval) list"
  | Json_object "(string \<times> jsval) list"

datatype response = Response nat body

text \<open>\<^verbatim>\<open>!x\<close>: an absent field, the empty string and the number \<open>0\<close> are falsy.\<close>

fun falsy_string :: "string option \<Rightarrow> bool" where
  "falsy_string None = True"
| "falsy_string (Some s) = (s = [])"

fun falsy_number :: "int option \<Rightarrow> bool" where
  "falsy_number None = True"
| "falsy_number (Some n) = (n = 0)"

subsection \<open>POST /add\<close>

definition post_add :: "db \<Rightarrow> string option \<Rightarrow> int option \<Rightarrow> string option \<Rightarrow> db \<times> response" where
  "post_add db payer' points' timestamp' =
     (if falsy_string payer' then (db, Response 400 (Msg ''You must specify a payer!''))
      else if falsy_number points' then
        (db, Response 400 (Msg ''You must specify points to add!''))
      else if falsy_string timestamp' then
        (db, Response 400 (Msg ''You must specify a timestamp!''))
      else
        (let (db1, ret) = db_get db (the payer') (the points') (the timestamp')
         in (db1, Response 200 (Msg_id ''Successfully added!'' ret))))"

subsection \<open>POST /spend\<close>

text \<open>
  One update of the summary:
  \<^verbatim>\<open>spendSummary[k] ? spendSummary[k] -= d : spendSummary[k] = (-1) * d\<close>.
\<close>

definition summary_step :: "object \<Rightarrow> string \<Rightarrow> int \<Rightarrow> object" where
  "summary_step spendSummary k pointsDeduced =
     (if truthy (get_property spendSummary k)
      then set_property spendSummary k (js_minus (get_property spendSummary k) pointsDeduced)
      else set_property spendSummary k (Num ((- 1) * pointsDeduced)))"

text \<open>
  The loop \<^verbatim>\<open>for (const data of pointsRecord)\<close>. It walks the snapshot that was read
  before the loop; the store and the summary are threaded through.
\<close>

fun spend_loop :: "grant list \<Rightarrow> int \<Rightarrow> db \<Rightarrow> object \<Rightarrow> db \<times> object" where
  "spend_loop [] points' db spendSummary = (db, spendSummary)"
| "spend_loop (data # pointsRecord) points' db spendSummary =
     (if points' \<le> 0 then (db, spendSummary)
      else if points data > 0 then
        (let pointsDeduced = min points' (points data);
             db1 = db_run db (js_sub (points data) pointsDeduced) (id' data)
         in spend_loop pointsRecord (js_sub points' pointsDeduced) db1
              (summary_step spendSummary (payer data) pointsDeduced))
      else spend_loop pointsRecord points' db spendSummary)"

definition post_spend :: "db \<Rightarrow> int option \<Rightarrow> db \<times> response" where
  "post_spend db body_points =
     (if falsy_number body_points then
        (db, Response 400 (Msg ''You must specify points to spend!''))
      else
        (let points' = the body_points;
             (db1, pointsRecord) = db_all db;
             totalBalance = foldl (\<lambda>prev data. js_add prev (points data)) (Num 0) pointsRecord
         in if js_less totalBalance points' then
              (db1, Response 400 (Text ''The user doesn't have enough points!''))
            else
              (let (db2, spendSummary) = spend_loop pointsRecord points' db1 []
               in (db2, Response 200 (Payer_points (Object_entries spendSummary))))))"

subsection \<open>GET /balance\<close>

text \<open>
  One step of \<^verbatim>\<open>forEach\<close>:
  \<^verbatim>\<open>result[k] === undefined ? result[k] = p : result[k] += p\<close>.
\<close>

definition balance_step :: "grant \<Rightarrow> object \<Rightarrow> object" where
  "balance_step data result =
     (if get_property result (payer data) = Undefined
      then set_property result (payer data) (Num (points data))
      else set_property result (payer data)
             (js_plus (payer data) (get_property result (payer data)) (points data)))"

definition get_balance :: "db \<Rightarrow> db \<times> response" where
  "get_balance db =
     (let (db1, pointsRecord) = db_all db;
          result = fold balance_step pointsRecord []
      in (db1, Response 200 (Json_object (Object_entries result))))"

subsection \<open>Sequences of requests\<close>

datatype request =
    Add "string option" "int option" "string option"
  | Spend "int option"
  | Balance

fun handle :: "db \<Rightarrow> request \<Rightarrow> db \<times> response" where
  "handle db (Add payer' points' timestamp') = post_add db payer' points' timestamp'"
| "handle db (Spend points') = post_spend db points'"
| "handle db Balance = get_balance db"

fun run :: "db \<Rightarrow> request list \<Rightarrow> db" where
  "run db [] = db"
| "run db (q # qs) = run (fst (handle db q)) qs"

section \<open>Notions the properties are stated with\<close>

text \<open>
  The primary key makes the ids of a table distinct. The store above does not enforce
  this for an arbitrary list of rows, so it is a hypothesis on the store wherever a
  property depends on it; every store reached by the handlers from the empty one has it.
\<close>

definition wf_db :: "db \<Rightarrow> bool" where
  "wf_db db = distinct (map id' (rows db))"

text \<open>The sum of all points of a list of rows, and the sum over the rows of one payer.\<close>

definition total_points :: "grant list \<Rightarrow> int" where
  "total_points rs = sum_list (map points rs)"

definition payer_points :: "string \<Rightarrow> grant list \<Rightarrow> int" where
  "payer_points k rs = sum_list (map (\<lambda>r. if payer r = k then points r else 0) rs)"

text \<open>
  The ledgers on which the handlers compute exactly: the magnitudes of all points add
  up to at most \<open>2^53\<close>, so every sum and difference the handlers form is an integer of
  at most that magnitude.
\<close>

definition magnitude :: "grant list \<Rightarrow> int" where
  "magnitude rs = sum_list (map (\<lambda>r. \<bar>points r\<bar>) rs)"

definition safe :: "grant list \<Rightarrow> bool" where
  "safe rs = (magnitude rs \<le> 2 ^ 53)"

text \<open>The total as the handler computes it, from the left and rounded at every step.\<close>

definition total_balance :: "grant list \<Rightarrow> jsval" where
  "total_balance xs = foldl (\<lambda>prev data. js_add prev (points data)) (Num 0) xs"

text \<open>The sum of the points of the rows that hold a positive number of points.\<close>

definition spendable :: "grant list \<Rightarrow> int" where
  "spendable rs = sum_list (map (\<lambda>r. max 0 (points r)) rs)"

text \<open>The points of the row with id \<open>i\<close>, if there is one.\<close>

definition points_of :: "db \<Rightarrow> nat \<Rightarrow> int option" where
  "points_of db i = map_of (map (\<lambda>r. (id' r, points r)) (rows db)) i"

text \<open>
  What a spend took from a payer: the payer's balance before minus the balance after;
  and the rows of the snapshot whose points differ afterwards, in snapshot order.
\<close>

definition deducted :: "db \<Rightarrow> db \<Rightarrow> string \<Rightarrow> int" where
  "deducted db db1 k = payer_points k (rows db) - payer_points k (rows db1)"

definition touched :: "db \<Rightarrow> db \<Rightarrow> grant list" where
  "touched db db1 =
     filter (\<lambda>r. points_of db1 (id' r) \<noteq> Some (points r)) (snd (db_all db))"

text \<open>
  The elements of a list in the order of their first occurrence; the first argument
  lists what has been seen already.
\<close>

fun first_seen :: "'a list \<Rightarrow> 'a list \<Rightarrow> 'a list" where
  "first_seen seen [] = []"
| "first_seen seen (x # xs) =
     (if x \<in> set seen then first_seen seen xs else x # first_seen (x # seen) xs)"

text \<open>A payer name that no property of \<^verbatim>\<open>Object.prototype\<close> carries.\<close>

definition plain :: "string \<Rightarrow> bool" where
  "plain k = (k \<notin> set Object_prototype)"

text \<open>
  The deductions of the loop as a function of the snapshot alone: the rows it updates,
  each with the points it takes, in the order of the updates. \<open>apply_plan\<close> and
  \<open>summarise\<close> replay them on the store and on the summary.
\<close>

fun allocate :: "grant list \<Rightarrow> int \<Rightarrow> (grant \<times> int) list" where
  "allocate [] p = []"
| "allocate (x # xs) p =
     (if p \<le> 0 then []
      else if points x > 0 then
        (x, min p (points x)) # allocate xs (js_sub p (min p (points x)))
      else allocate xs p)"

definition apply_plan :: "(grant \<times> int) list \<Rightarrow> db \<Rightarrow> db" where
  "apply_plan plan db = fold (\<lambda>(x, d) db. db_run db (js_sub (points x) d) (id' x)) plan db"

definition summarise :: "(grant \<times> int) list \<Rightarrow> object \<Rightarrow> object" where
  "summarise plan s = fold (\<lambda>(x, d) s. summary_step s (payer x) d) plan s"

text \<open>A row after the updates of a plan: the plan's entry for its id sets its points.\<close>

definition settle :: "(grant \<times> int) list \<Rightarrow> grant \<Rightarrow> grant" where
  "settle plan r =
     (case map_of (map (\<lambda>(x, d). (id' x, js_sub (points x) d)) plan) (id' r) of
        None \<Rightarrow> r
      | Some v \<Rightarrow> r\<lparr>points := v\<rparr>)"

text \<open>
  For the summary: the number a key holds (0 when it holds none), the points a plan
  takes from a payer, and the summaries whose values are all negative numbers.
\<close>

definition amount :: "object \<Rightarrow> string \<Rightarrow> int" where
  "amount s k = (case map_of s k of Some (Num n) \<Rightarrow> n | _ \<Rightarrow> 0)"

definition plan_total :: "string \<Rightarrow> (grant \<times> int) list \<Rightarrow> int" where
  "plan_total k plan = sum_list (map (\<lambda>(x, d). if payer x = k then d else 0) plan)"

fun negative :: "jsval \<Rightarrow> bool" where
  "negative (Num n) = (n < 0)"
| "negative v = False"

definition negative_entries :: "(string \<times> jsval) list \<Rightarrow> bool" where
  "negative_entries es = list_all (\<lambda>(k, v). negative v) es"

text \<open>For the balance: the results whose values are all numbers.\<close>

fun numeric :: "jsval \<Rightarrow> bool" where
  "numeric (Num n) = True"
| "numeric v = False"

definition numeric_entries :: "(string \<times> jsval) list \<Rightarrow> bool" where
  "numeric_entries es = list_all (\<lambda>(k, v). numeric v) es"

text \<open>Only requests that add a non-negative number of points (or are no addition).\<close>

fun nonneg_add :: "request \<Rightarrow> bool" where
  "nonneg_add (Add payer' (Some n) timestamp') = (0 \<le> n)"
| "nonneg_add q = True"

text \<open>
  How a row may differ after a request: only in its points, which do not grow and do not
  fall below zero (a row that holds a negative number of points keeps it).
\<close>

definition decremented :: "grant \<Rightarrow> grant \<Rightarrow> bool" where
  "decremented r r1 =
     (r1 = r\<lparr>points := points r1\<rparr> \<and> points r1 \<le> points r \<and> min 0 (points r) \<le> points r1)"

text \<open>
  The ledger used in the examples: four grants added out of timestamp order.
\<close>

definition scenario1 :: db where
  "scenario1 = run empty_db
     [Add (Some ''DANNON'') (Some 300) (Some ''2020-10-31T10:00:00Z''),
      Add (Some ''UNILEVER'') (Some 200) (Some ''2020-10-31T11:00:00Z''),
      Add (Some ''DANNON'') (Some 10000) (Some ''2020-11-02T14:00:00Z''),
      Add (Some ''MILLER COORS'') (Some 10000) (Some ''2020-11-01T14:00:00Z'')]"

text \<open>
  Ledgers with grants of \<open>2^53 = 9007199254740992\<close> points and more, where sums are
  rounded.
\<close>

definition large_grants :: db where
  "large_grants = run empty_db
     [Add (Some ''DANNON'') (Some 9007199254740992) (Some ''2020-10-31T10:00:00Z''),
      Add (Some ''DANNON'') (Some 3) (Some ''2020-10-31T11:00:00Z'')]"

definition large_and_negative_grants :: db where
  "large_and_negative_grants = run empty_db
     [Add (Some ''DANNON'') (Some 9007199254740992) (Some ''2020-10-31T10:00:00Z''),
      Add (Some ''DANNON'') (Some 1) (Some ''2020-10-31T11:00:00Z''),
      Add (Some ''DANNON'') (Some (- 9007199254740992)) (Some ''2020-10-31T12:00:00Z''),
      Add (Some ''DANNON'') (Some (- 5)) (Some ''2020-10-31T13:00:00Z'')]"

definition large_odd_total :: db where
  "large_odd_total = run empty_db
     [Add (Some ''DANNON'') (Some 9007199254740994) (Some ''2020-10-31T10:00:00Z''),
      Add (Some ''UNILEVER'') (Some 1) (Some ''2020-10-31T11:00:00Z'')]"

definition large_two_payers :: db where
  "large_two_payers = run empty_db
     [Add (Some ''DANNON'') (Some 9007199254740992) (Some ''2020-10-31T10:00:00Z''),
      Add (Some ''DANNON'') (Some 1) (Some ''2020-10-31T11:00:00Z''),
      Add (Some ''UNILEVER'') (Some 10) (Some ''2020-10-31T12:00:00Z'')]"

text \<open>
  Two grants 999 milliseconds apart, the later one written with fractional seconds.
\<close>

definition fractional_seconds :: db where
  "fractional_seconds = run empty_db
     [Add (Some ''DANNON'') (Some 5) (Some ''2020-11-02T14:00:00Z''),
      Add (Some ''UNILEVER'') (Some 5) (Some ''2020-11-02T14:00:00.999Z'')]"

text \<open>A ledger whose payers are named by numerals, the older grant under the larger one.\<close>

definition numbered_payers :: db where
  "numbered_payers = run empty_db
     [Add (Some ''2'') (Some 5) (Some ''2020-10-31T10:00:00Z''),
      Add (Some ''1'') (Some 5) (Some ''2020-10-31T11:00:00Z'')]"

section \<open>Rounding\<close>

lemma scale_props:
  "0 < q \<Longrightarrow> \<exists>j. scale a q = q * 2 ^ j \<and> a < 2 ^ 53 * scale a q
      \<and> (j = 0 \<or> 2 ^ 52 * scale a q \<le> a)"
proof (induction a q rule: scale.induct)
  case (1 a q)
  show ?case
  proof (cases "2 ^ 53 * q \<le> a")
    case True
    with "1.prems" have eq: "scale a q = scale a (2 * q)" by (subst scale.simps) simp
    have "\<exists>j. scale a (2 * q) = 2 * q * 2 ^ j \<and> a < 2 ^ 53 * scale a (2 * q)
      \<and> (j = 0 \<or> 2 ^ 52 * scale a (2 * q) \<le> a)"
    proof (rule "1.IH")
      show "0 < q \<and> 2 ^ 53 * q \<le> a" using "1.prems" True by simp
      show "0 < 2 * q" using "1.prems" by simp
    qed
    then obtain j where j: "scale a (2 * q) = 2 * q * 2 ^ j" "a < 2 ^ 53 * scale a (2 * q)"
      "j = 0 \<or> 2 ^ 52 * scale a (2 * q) \<le> a"
      by blast
    have "2 ^ 52 * scale a (2 * q) \<le> a"
    proof (cases "j = 0")
      case True
      with j(1) \<open>2 ^ 53 * q \<le> a\<close> show ?thesis by simp
    next
      case False
      with j(3) show ?thesis by simp
    qed
    with j(1,2) have "scale a q = q * 2 ^ Suc j \<and> a < 2 ^ 53 * scale a q
      \<and> (Suc j = 0 \<or> 2 ^ 52 * scale a q \<le> a)"
      by (simp add: eq)
    then show ?thesis by blast
  next
    case False
    with "1.prems" have "scale a q = q" by (subst scale.simps) simp
    with False have "scale a q = q * 2 ^ 0 \<and> a < 2 ^ 53 * scale a q
      \<and> (0 = (0::nat) \<or> 2 ^ 52 * scale a q \<le> a)"
      by simp
    then show ?thesis by blast
  qed
qed


lemma div_mult_bounds:
  fixes a q :: int
  assumes "0 < q"
  shows "(a div q) * q \<le> a" and "a < (a div q + 1) * q"
proof -
  have eq: "a = (a div q) * q + a mod q" by simp
  from assms have "0 \<le> a mod q" "a mod q < q" by simp_all
  with eq show "(a div q) * q \<le> a" by linarith
  have "(a div q + 1) * q = (a div q) * q + q" by (simp add: distrib_right)
  with eq \<open>a mod q < q\<close> show "a < (a div q + 1) * q" by linarith
qed

lemma nearest_lower:
  assumes "0 < q" "M * q \<le> a"
  shows "M * q \<le> nearest q a"
proof -
  from assms have "(M * q) div q \<le> a div q" by (intro zdiv_mono1) simp_all
  with assms(1) have "M \<le> a div q" by simp
  with assms(1) have "M * q \<le> (a div q) * q" by simp
  moreover from assms(1) have "(a div q) * q \<le> nearest q a"
    by (simp add: nearest_def Let_def)
  ultimately show ?thesis by simp
qed

lemma nearest_upper:
  assumes "0 < q" "a \<le> M * q"
  shows "nearest q a \<le> M * q"
proof (cases "nearest q a = (a div q) * q")
  case True
  have "(a div q) * q \<le> a" by (rule div_mult_bounds [OF assms(1)])
  with True assms(2) show ?thesis by simp
next
  case False
  then have up: "nearest q a = (a div q + 1) * q" and r: "0 < a mod q"
    using assms(1) by (auto simp: nearest_def Let_def split: if_splits)
  have "a = (a div q) * q + a mod q" by simp
  with r assms(2) have "(a div q) * q < M * q" by linarith
  with assms(1) have "a div q < M" by simp
  then have "a div q + 1 \<le> M" by simp
  with assms(1) have "(a div q + 1) * q \<le> M * q" by simp
  with up show ?thesis by simp
qed

lemma nearest_mono:
  assumes "0 < q" "a \<le> b"
  shows "nearest q a \<le> nearest q b"
proof (cases "a div q = b div q")
  case True
  have "a = (a div q) * q + a mod q" "b = (b div q) * q + b mod q" by simp_all
  with True assms(2) have "a mod q \<le> b mod q" by (metis add_le_cancel_left)
  with True assms(1) show ?thesis
    by (auto simp: nearest_def Let_def)
next
  case False
  from assms have "a div q \<le> b div q" by (intro zdiv_mono1) simp_all
  with False have "a div q + 1 \<le> b div q" by simp
  with assms(1) have le: "(a div q + 1) * q \<le> (b div q) * q" by simp
  have "a \<le> (a div q + 1) * q"
    using div_mult_bounds(2) [OF assms(1), of a] by simp
  then have "nearest q a \<le> (a div q + 1) * q"
    by (rule nearest_upper [OF assms(1)])
  moreover have "(b div q) * q \<le> nearest q b"
    by (rule nearest_lower [OF assms(1) div_mult_bounds(1) [OF assms(1)]])
  ultimately show ?thesis using le by linarith
qed

lemma scale_big:
  assumes "2 ^ 53 < a"
  obtains j where "scale a 1 = 2 ^ Suc j" "a < 2 ^ 53 * scale a 1" "2 ^ 52 * scale a 1 \<le> a"
proof -
  have "\<exists>i. scale a 1 = 2 ^ i \<and> a < 2 ^ 53 * scale a 1
      \<and> (i = 0 \<or> 2 ^ 52 * scale a 1 \<le> a)"
    using scale_props [of 1 a] by simp
  then obtain i where i: "scale a 1 = 2 ^ i" "a < 2 ^ 53 * scale a 1"
    "i = 0 \<or> 2 ^ 52 * scale a 1 \<le> a"
    by blast
  from i(1,2) assms have "i \<noteq> 0" by (cases "i = 0") simp_all
  then obtain j where "i = Suc j" by (cases i) simp_all
  with i that [of j] show thesis by simp
qed

lemma round53_mono:
  assumes "0 \<le> a" "a \<le> b"
  shows "round53 a \<le> round53 b"
proof (cases "b \<le> 2 ^ 53")
  case True
  with assms show ?thesis by (simp add: round53_def)
next
  case bigb: False
  then have b: "2 ^ 53 < b" by simp
  from scale_big [OF b] obtain j where
    qb: "scale b 1 = 2 ^ Suc j" "b < 2 ^ 53 * scale b 1" "2 ^ 52 * scale b 1 \<le> b"
    by blast
  have qb_pos: "0 < scale b 1" by (simp add: qb(1))
  have rb: "round53 b = nearest (scale b 1) b"
    using b by (simp add: round53_def)
  have low: "2 ^ 52 * scale b 1 \<le> round53 b"
    unfolding rb using nearest_lower [OF qb_pos, of "2 ^ 52" b] qb(3) by simp
  show ?thesis
  proof (cases "a \<le> 2 ^ 53")
    case True
    with assms(1) have "round53 a = a" by (simp add: round53_def)
    moreover have "(2::int) ^ 53 \<le> 2 ^ 52 * scale b 1" by (simp add: qb(1))
    ultimately show ?thesis using True low by linarith
  next
    case False
    then have a: "2 ^ 53 < a" by simp
    from scale_big [OF a] obtain i where
      qa: "scale a 1 = 2 ^ Suc i" "a < 2 ^ 53 * scale a 1" "2 ^ 52 * scale a 1 \<le> a"
      by blast
    have qa_pos: "0 < scale a 1" by (simp add: qa(1))
    have ra: "round53 a = nearest (scale a 1) a"
      using a by (simp add: round53_def)
    show ?thesis
    proof (cases "scale a 1 = scale b 1")
      case True
      with nearest_mono [OF qb_pos assms(2)] ra rb show ?thesis by simp
    next
      case False
      have "i < j"
      proof (rule ccontr)
        assume "\<not> i < j"
        with False qa(1) qb(1) have "j < i" by (cases "i = j") simp_all
        then have "Suc (Suc j) \<le> Suc i" by simp
        then have "(2::int) ^ Suc (Suc j) \<le> 2 ^ Suc i" by (rule power_increasing) simp
        then have "2 * scale b 1 \<le> scale a 1" by (simp add: qa(1) qb(1))
        with qb(2) qa(3) assms(2) show False by simp
      qed
      then have "Suc (Suc i) \<le> Suc j" by simp
      then have "(2::int) ^ Suc (Suc i) \<le> 2 ^ Suc j" by (rule power_increasing) simp
      then have double: "2 * scale a 1 \<le> scale b 1" by (simp add: qa(1) qb(1))
      have "round53 a \<le> 2 ^ 53 * scale a 1"
        unfolding ra using nearest_upper [OF qa_pos, of a "2 ^ 53"] qa(2) by simp
      with double low show ?thesis by simp
    qed
  qed
qed

lemma round53_safe: "\<bar>x\<bar> \<le> 2 ^ 53 \<Longrightarrow> round53 x = x"
  by (simp add: round53_def)

lemma round53_nonneg: "0 \<le> a \<Longrightarrow> 0 \<le> round53 a"
  using round53_mono [of 0 a] by (simp add: round53_safe)

lemma round53_zero: "round53 0 = 0"
  by (simp add: round53_def)

text \<open>Within the safe range every operation is exact.\<close>

lemma double_safe: "\<bar>x\<bar> \<le> 2 ^ 53 \<Longrightarrow> double x = Num x"
  by (auto simp: double_def round53_def)

lemma number_safe: "\<bar>x\<bar> \<le> 2 ^ 53 \<Longrightarrow> number a b x = Num x"
  by (simp add: number_def double_safe)

lemma js_sub_safe: "\<bar>a - b\<bar> \<le> 2 ^ 53 \<Longrightarrow> js_sub a b = a - b"
  by (simp add: js_sub_def round53_def)

lemma js_sub_self: "js_sub a a = 0"
  by (simp add: js_sub_def round53_def)

text \<open>Taking a part away leaves a number between zero and the whole.\<close>

lemma js_sub_bounds:
  assumes "0 \<le> b" "b \<le> a"
  shows "0 \<le> js_sub a b" and "js_sub a b \<le> a"
proof -
  show "0 \<le> js_sub a b"
    using assms round53_nonneg [of "a - b"] by (simp add: js_sub_def)
  show "js_sub a b \<le> a"
  proof (cases "is_double a \<and> is_double b")
    case True
    then have "round53 a = a" by (simp add: is_double_def)
    moreover from assms have "round53 (a - b) \<le> round53 a"
      by (intro round53_mono) simp_all
    ultimately show ?thesis using True by (simp add: js_sub_def)
  next
    case False
    with assms show ?thesis by (auto simp: js_sub_def)
  qed
qed

section \<open>The store\<close>

lemmas handler_defs =
  post_spend_def post_add_def get_balance_def balance_step_def db_get_def db_all_def
  db_run_def summary_step_def get_property_def set_property_def Object_prototype_def
  Object_entries_def own_keys_def array_index_def decimal_def empty_db_def

text \<open>For evaluating the handlers on small numbers, and on large ones.\<close>

lemmas exact_arith = number_safe js_sub_safe

lemmas rounding_defs =
  number_def js_sub_def is_double_def double_def round53_def nearest_def scale.simps

lemma magnitude_nonneg: "0 \<le> magnitude xs"
  unfolding magnitude_def by (rule sum_list_nonneg) auto

text \<open>On a safe ledger the total is the exact sum.\<close>

lemma foldl_points:
  "\<bar>a\<bar> + magnitude xs \<le> 2 ^ 53 \<Longrightarrow>
     foldl (\<lambda>prev data. js_add prev (points data)) (Num a) xs = Num (a + total_points xs)"
proof (induction xs arbitrary: a)
  case Nil
  then show ?case by (simp add: total_points_def)
next
  case (Cons x xs)
  from Cons.prems have here: "\<bar>a + points x\<bar> \<le> 2 ^ 53"
    and rest: "\<bar>a + points x\<bar> + magnitude xs \<le> 2 ^ 53"
    using magnitude_nonneg [of xs] by (simp_all add: magnitude_def)
  from Cons.IH [OF rest] here show ?case
    by (simp add: number_safe total_points_def)
qed

section \<open>The loop and its plan\<close>

lemma spend_loop_allocate:
  "spend_loop xs p db s = (apply_plan (allocate xs p) db, summarise (allocate xs p) s)"
  by (induction xs arbitrary: p db s) (simp_all add: apply_plan_def summarise_def Let_def)

lemma allocate_nonpos: "p \<le> 0 \<Longrightarrow> allocate xs p = []"
  by (cases xs) simp_all

lemma allocate_mem:
  "(x, d) \<in> set (allocate xs p) \<Longrightarrow> x \<in> set xs \<and> 0 < d \<and> d \<le> points x"
proof (induction xs arbitrary: p)
  case Nil
  then show ?case by simp
next
  case (Cons y ys)
  show ?case
  proof (cases "p \<le> 0")
    case True
    with Cons.prems show ?thesis by simp
  next
    case False
    show ?thesis
    proof (cases "points y > 0")
      case True
      from Cons.prems False True
      consider "x = y" "d = min p (points y)"
        | "(x, d) \<in> set (allocate ys (js_sub p (min p (points y))))"
        by auto
      then show ?thesis
      proof cases
        case 1
        with False True show ?thesis by auto
      next
        case 2
        from Cons.IH [OF 2] False True show ?thesis by auto
      qed
    next
      case nonpos: False
      with Cons.prems False have "(x, d) \<in> set (allocate ys p)" by simp
      from Cons.IH [OF this] show ?thesis by auto
    qed
  qed
qed

text \<open>
  A plan takes no more than the rows with positive points hold; when the amount is a safe
  integer it takes exactly the amount, or all there is.
\<close>

lemma allocate_sum_le: "sum_list (map snd (allocate xs p)) \<le> spendable xs"
proof (induction xs arbitrary: p)
  case Nil
  then show ?case by (simp add: spendable_def)
next
  case (Cons y ys)
  have nonneg: "0 \<le> spendable ys"
    unfolding spendable_def by (rule sum_list_nonneg) auto
  from Cons.IH [of "js_sub p (min p (points y))"] Cons.IH [of p] nonneg
  show ?case by (auto simp: spendable_def)
qed

lemma allocate_sum:
  "0 \<le> p \<Longrightarrow> p \<le> 2 ^ 53 \<Longrightarrow> sum_list (map snd (allocate xs p)) = min p (spendable xs)"
proof (induction xs arbitrary: p)
  case Nil
  then show ?case by (simp add: spendable_def)
next
  case (Cons y ys)
  have nonneg: "0 \<le> spendable ys"
    unfolding spendable_def by (rule sum_list_nonneg) auto
  show ?case
  proof (cases "p \<le> 0")
    case True
    with Cons.prems nonneg show ?thesis by (simp add: spendable_def)
  next
    case False
    show ?thesis
    proof (cases "points y > 0")
      case True
      from Cons.prems True have exact: "js_sub p (min p (points y)) = p - min p (points y)"
        by (intro js_sub_safe) simp
      have "0 \<le> p - min p (points y)" "p - min p (points y) \<le> 2 ^ 53"
        using Cons.prems True by simp_all
      from Cons.IH [OF this] False True nonneg exact show ?thesis
        by (simp add: spendable_def min_def split: if_splits)
    next
      case nonpos: False
      with Cons.IH [OF Cons.prems] False show ?thesis
        by (simp add: spendable_def)
    qed
  qed
qed

lemma allocate_ids:
  "map fst (allocate xs p) = filter (\<lambda>r. r \<in> fst ` set (allocate xs p)) xs" if "distinct xs"
  using that
proof (induction xs arbitrary: p)
  case Nil
  then show ?case by simp
next
  case (Cons y ys)
  have notin: "y \<notin> fst ` set (allocate ys q)" for q
    using Cons.prems allocate_mem [of y _ ys q] by auto
  have ih: "map fst (allocate ys q) = filter (\<lambda>r. r \<in> fst ` set (allocate ys q)) ys" for q
    using Cons by simp
  show ?case
  proof (cases "p \<le> 0")
    case True
    then show ?thesis by simp
  next
    case False
    show ?thesis
    proof (cases "points y > 0")
      case True
      let ?q = "js_sub p (min p (points y))"
      have "filter (\<lambda>r. r \<in> fst ` set (allocate (y # ys) p)) ys
          = filter (\<lambda>r. r \<in> fst ` set (allocate ys ?q)) ys"
        using Cons.prems False True by (intro filter_cong) auto
      with False True ih [of ?q] show ?thesis by simp
    next
      case nonpos: False
      with False notin [of p] ih [of p] show ?thesis by simp
    qed
  qed
qed

section \<open>Snapshots and the effect of a plan on the rows\<close>

lemma sum_insort_key: "sum_list (map g (insort_key f x xs)) = g x + sum_list (map g xs)"
  for g :: "'a \<Rightarrow> int"
  by (induction xs) simp_all

lemma sum_sort_key: "sum_list (map g (sort_key f xs)) = sum_list (map g xs)"
  for g :: "'a \<Rightarrow> int"
  by (induction xs) (simp_all add: sum_insort_key)

lemma total_points_snapshot: "total_points (snd (db_all db)) = total_points (rows db)"
  by (simp add: db_all_def total_points_def sum_sort_key)

lemma total_le_spendable: "total_points rs \<le> spendable rs"
  unfolding total_points_def spendable_def by (rule sum_list_mono) simp

lemma spendable_nonneg: "(\<And>r. r \<in> set rs \<Longrightarrow> 0 \<le> points r) \<Longrightarrow> spendable rs = total_points rs"
  unfolding total_points_def spendable_def by (induction rs) simp_all

lemma magnitude_snapshot: "magnitude (snd (db_all db)) = magnitude (rows db)"
  by (simp add: db_all_def magnitude_def sum_sort_key)

lemma points_le_magnitude: "r \<in> set rs \<Longrightarrow> \<bar>points r\<bar> \<le> magnitude rs"
proof (induction rs)
  case Nil
  then show ?case by simp
next
  case (Cons x rs)
  from magnitude_nonneg [of rs] Cons show ?case
    by (auto simp: magnitude_def)
qed

lemma spendable_le_magnitude: "spendable rs \<le> magnitude rs"
  unfolding spendable_def magnitude_def by (rule sum_list_mono) simp

lemma safe_points: "safe rs \<Longrightarrow> r \<in> set rs \<Longrightarrow> \<bar>points r\<bar> \<le> 2 ^ 53"
  using points_le_magnitude [of r rs] by (simp add: safe_def)

lemma distinct_ids_snapshot: "wf_db db \<Longrightarrow> distinct (map id' (snd (db_all db)))"
  by (simp add: wf_db_def db_all_def distinct_map)

lemma set_snapshot: "set (snd (db_all db)) = set (rows db)"
  by (simp add: db_all_def)

lemma sorted_snapshot: "sorted (map timestamp (snd (db_all db)))"
  by (simp add: db_all_def)

lemma rows_db_run:
  "rows (db_run db n i) = map (\<lambda>r. if id' r = i then r\<lparr>points := n\<rparr> else r) (rows db)"
  by (simp add: db_run_def)

lemma journal_apply_plan:
  "journal (apply_plan plan db)
     = journal db @ map (\<lambda>(x, d). UPDATE_POINTS_SQL (js_sub (points x) d) (id' x)) plan"
  unfolding apply_plan_def
  by (induction plan arbitrary: db) (auto simp: db_run_def)

lemma id_settle: "id' (settle plan r) = id' r"
  by (simp add: settle_def split: option.splits)

lemma rows_apply_plan:
  "distinct (map (id' \<circ> fst) plan) \<Longrightarrow> rows (apply_plan plan db) = map (settle plan) (rows db)"
proof (induction plan arbitrary: db)
  case Nil
  then show ?case by (simp add: apply_plan_def settle_def)
next
  case (Cons a plan)
  obtain x d where a: "a = (x, d)" by (cases a)
  from Cons.prems have dist: "distinct (map (id' \<circ> fst) plan)" by (simp add: comp_def)
  from Cons.prems a have fresh: "id' x \<notin> id' ` fst ` set plan"
    by (simp add: comp_def image_image)
  have none: "map_of (map (\<lambda>(x, d). (id' x, js_sub (points x) d)) plan) (id' x) = None"
    using fresh by (force simp: map_of_eq_None_iff image_image)
  have "apply_plan (a # plan) db = apply_plan plan (db_run db (js_sub (points x) d) (id' x))"
    by (simp add: apply_plan_def a)
  also have "rows \<dots> = map (settle plan) (rows (db_run db (js_sub (points x) d) (id' x)))"
    by (rule Cons.IH [OF dist])
  also have "\<dots> = map (settle (a # plan)) (rows db)"
    using none by (auto simp: rows_db_run settle_def a split: option.splits)
  finally show ?case .
qed

lemma distinct_plan_ids:
  assumes "distinct (map id' xs)"
  shows "distinct (map (id' \<circ> fst) (allocate xs p))"
proof -
  from assms have dx: "distinct xs" by (simp add: distinct_map)
  have "map (id' \<circ> fst) (allocate xs p) = map id' (map fst (allocate xs p))" by simp
  also have "\<dots> = map id' (filter (\<lambda>r. r \<in> fst ` set (allocate xs p)) xs)"
    using allocate_ids [OF dx, of p] by simp
  finally show ?thesis using assms by (simp add: distinct_map_filter)
qed

lemma settle_in:
  assumes "distinct (map id' xs)" "(r, d) \<in> set (allocate xs p)"
  shows "settle (allocate xs p) r = r\<lparr>points := js_sub (points r) d\<rparr>"
proof -
  let ?al = "map (\<lambda>(x, d). (id' x, js_sub (points x) d)) (allocate xs p)"
  have eq: "map fst ?al = map (id' \<circ> fst) (allocate xs p)"
    by (simp add: case_prod_beta comp_def)
  have "distinct (map fst ?al)"
    unfolding eq by (rule distinct_plan_ids [OF assms(1)])
  moreover from assms(2) have "(id' r, js_sub (points r) d) \<in> set ?al" by force
  ultimately have "map_of ?al (id' r) = Some (js_sub (points r) d)" by (rule map_of_is_SomeI)
  then show ?thesis by (simp add: settle_def)
qed

lemma settle_out:
  assumes "distinct (map id' xs)" "r \<in> set xs" "r \<notin> fst ` set (allocate xs p)"
  shows "settle (allocate xs p) r = r"
proof -
  let ?al = "map (\<lambda>(x, d). (id' x, js_sub (points x) d)) (allocate xs p)"
  have "id' r \<notin> fst ` set ?al"
  proof
    assume "id' r \<in> fst ` set ?al"
    then obtain x d where xd: "(x, d) \<in> set (allocate xs p)" and eq: "id' x = id' r" by force
    from allocate_mem [OF xd] have "x \<in> set xs" by simp
    with assms(1,2) eq have "x = r" by (auto simp: distinct_map dest: inj_onD)
    with xd assms(3) show False by force
  qed
  then have "map_of ?al (id' r) = None" by (simp add: map_of_eq_None_iff)
  then show ?thesis by (simp add: settle_def)
qed

lemma points_of_mapped:
  assumes "distinct (map id' rs)" "r \<in> set rs" "\<And>x. id' (g x) = id' x"
  shows "points_of \<lparr>rows = map g rs, journal = j\<rparr> (id' r) = Some (points (g r))"
proof -
  let ?al = "map (\<lambda>r. (id' r, points r)) (map g rs)"
  have eq: "map fst ?al = map id' rs" using assms(3) by (simp add: comp_def)
  have "distinct (map fst ?al)"
    unfolding eq by (rule assms(1))
  moreover from assms(2,3) have "(id' r, points (g r)) \<in> set ?al" by force
  ultimately have "map_of ?al (id' r) = Some (points (g r))" by (rule map_of_is_SomeI)
  then show ?thesis by (simp add: points_of_def)
qed

lemma allocate_oldest_first:
  assumes "distinct (us @ b # ws)" "(b, d) \<in> set (allocate (us @ b # ws) p)"
    "a \<in> set us" "0 < points a"
  shows "(a, points a) \<in> set (allocate (us @ b # ws) p)"
  using assms
proof (induction us arbitrary: p)
  case Nil
  then show ?case by simp
next
  case (Cons u us)
  from Cons.prems(2) have pos: "0 < p" by (auto split: if_splits)
  from Cons.prems(1) have bu: "b \<noteq> u" and dist: "distinct (us @ b # ws)" by auto
  show ?case
  proof (cases "0 < points u")
    case True
    let ?q = "js_sub p (min p (points u))"
    from Cons.prems(2) pos True bu have later: "(b, d) \<in> set (allocate (us @ b # ws) ?q)"
      by simp
    have left: "0 < ?q"
    proof (rule ccontr)
      assume "\<not> 0 < ?q"
      then have "allocate (us @ b # ws) ?q = []" by (intro allocate_nonpos) simp
      with later show False by simp
    qed
    have full: "min p (points u) = points u"
    proof (rule ccontr)
      assume "min p (points u) \<noteq> points u"
      then have "min p (points u) = p" by (simp add: min_def split: if_splits)
      with left show False by (simp add: js_sub_self)
    qed
    show ?thesis
    proof (cases "a = u")
      case True
      with pos \<open>0 < points u\<close> full show ?thesis by simp
    next
      case False
      with Cons.prems(3) have "a \<in> set us" by simp
      from Cons.IH [OF dist later this Cons.prems(4)] pos True show ?thesis by simp
    qed
  next
    case False
    with Cons.prems(3,4) have au: "a \<in> set us" by auto
    from Cons.prems(2) pos False have later: "(b, d) \<in> set (allocate (us @ b # ws) p)" by simp
    from Cons.IH [OF dist later au Cons.prems(4)] pos False show ?thesis by simp
  qed
qed

lemma sorted_before:
  assumes "sorted (map timestamp xs)" "a \<in> set xs" "b \<in> set xs" "timestamp a < timestamp b"
  shows "\<exists>us ws. xs = us @ b # ws \<and> a \<in> set us"
proof -
  from assms(3) obtain us ws where xs: "xs = us @ b # ws" by (auto dest: split_list)
  have "a \<in> set us"
  proof (rule ccontr)
    assume "a \<notin> set us"
    with assms(2,4) xs have "a \<in> set ws" by auto
    with assms(1) xs have "timestamp b \<le> timestamp a" by (auto simp: sorted_append)
    with assms(4) show False by simp
  qed
  with xs show ?thesis by blast
qed

section \<open>POST /spend\<close>

lemma apply_plan_Nil: "apply_plan [] db = db"
  by (simp add: apply_plan_def)

lemma summarise_Nil: "summarise [] s = s"
  by (simp add: summarise_def)

lemma Object_entries_Nil: "Object_entries [] = []"
  by (simp add: Object_entries_def own_keys_def)

lemma post_spend_falsy:
  "falsy_number body_points \<Longrightarrow>
     post_spend db body_points = (db, Response 400 (Msg ''You must specify points to spend!''))"
  by (simp add: post_spend_def)

text \<open>The handler for an amount that passes validation, in terms of the plan.\<close>

lemma post_spend_some:
  "n \<noteq> 0 \<Longrightarrow>
     post_spend db (Some n)
       = (if js_less (total_balance (snd (db_all db))) n
          then (db\<lparr>journal := journal db @ [GET_POINTS_SQL]\<rparr>,
                Response 400 (Text ''The user doesn't have enough points!''))
          else (apply_plan (allocate (snd (db_all db)) n) (fst (db_all db)),
                Response 200
                  (Payer_points (Object_entries (summarise (allocate (snd (db_all db)) n) [])))))"
  by (simp add: post_spend_def db_all_def total_balance_def spend_loop_allocate)

lemma total_balance_safe:
  assumes "safe (rows db)"
  shows "total_balance (snd (db_all db)) = Num (total_points (rows db))"
proof -
  from assms have "\<bar>0\<bar> + magnitude (snd (db_all db)) \<le> 2 ^ 53"
    by (simp add: safe_def magnitude_snapshot)
  from foldl_points [OF this] show ?thesis
    by (simp add: total_balance_def total_points_snapshot)
qed

lemma post_spend_insufficient:
  assumes "n \<noteq> 0" "safe (rows db)" "total_points (rows db) < n"
  shows "post_spend db (Some n)
    = (db\<lparr>journal := journal db @ [GET_POINTS_SQL]\<rparr>,
       Response 400 (Text ''The user doesn't have enough points!''))"
  using assms(3) by (simp add: post_spend_some [OF assms(1)] total_balance_safe [OF assms(2)])

lemma post_spend_sufficient:
  assumes "n \<noteq> 0" "safe (rows db)" "\<not> total_points (rows db) < n"
  shows "post_spend db (Some n)
    = (apply_plan (allocate (snd (db_all db)) n) (fst (db_all db)),
       Response 200 (Payer_points (Object_entries (summarise (allocate (snd (db_all db)) n) []))))"
  using assms(3) by (simp add: post_spend_some [OF assms(1)] total_balance_safe [OF assms(2)])

lemma rows_spent:
  assumes "wf_db db"
  shows "rows (apply_plan (allocate (snd (db_all db)) n) (fst (db_all db)))
    = map (settle (allocate (snd (db_all db)) n)) (rows db)"
proof -
  have "distinct (map (id' \<circ> fst) (allocate (snd (db_all db)) n))"
    by (rule distinct_plan_ids [OF distinct_ids_snapshot [OF assms]])
  from rows_apply_plan [OF this] show ?thesis by (simp add: db_all_def)
qed

subsection \<open>The example ledgers\<close>

lemma scenario1_rows:
  "rows scenario1 =
    [\<lparr>id' = 1, payer = ''DANNON'', points = 300, timestamp = ''2020-10-31T10:00:00Z''\<rparr>,
     \<lparr>id' = 2, payer = ''UNILEVER'', points = 200, timestamp = ''2020-10-31T11:00:00Z''\<rparr>,
     \<lparr>id' = 3, payer = ''DANNON'', points = 10000, timestamp = ''2020-11-02T14:00:00Z''\<rparr>,
     \<lparr>id' = 4, payer = ''MILLER COORS'', points = 10000, timestamp = ''2020-11-01T14:00:00Z''\<rparr>]"
  by (simp add: scenario1_def handler_defs)

lemma scenario1_spend:
  "rows (fst (post_spend scenario1 (Some 5000))) =
    [\<lparr>id' = 1, payer = ''DANNON'', points = 0, timestamp = ''2020-10-31T10:00:00Z''\<rparr>,
     \<lparr>id' = 2, payer = ''UNILEVER'', points = 0, timestamp = ''2020-10-31T11:00:00Z''\<rparr>,
     \<lparr>id' = 3, payer = ''DANNON'', points = 10000, timestamp = ''2020-11-02T14:00:00Z''\<rparr>,
     \<lparr>id' = 4, payer = ''MILLER COORS'', points = 5500, timestamp = ''2020-11-01T14:00:00Z''\<rparr>]
   \<and> snd (post_spend scenario1 (Some 5000)) =
     Response 200 (Payer_points
       [(''DANNON'', Num (- 300)), (''UNILEVER'', Num (- 200)), (''MILLER COORS'', Num (- 4500))])"
  by (simp add: scenario1_def handler_defs exact_arith)

lemma scenario1_plain:
  "wf_db scenario1 \<and> safe (rows scenario1) \<and> list_all (\<lambda>r. plain (payer r)) (rows scenario1)
   \<and> list_all (\<lambda>r. 0 \<le> points r) (rows scenario1) \<and> total_points (rows scenario1) = 20500"
  by (simp add: wf_db_def safe_def magnitude_def scenario1_rows plain_def Object_prototype_def
      total_points_def)

lemma large_grants_rows:
  "rows large_grants =
    [\<lparr>id' = 1, payer = ''DANNON'', points = 9007199254740992,
       timestamp = ''2020-10-31T10:00:00Z''\<rparr>,
     \<lparr>id' = 2, payer = ''DANNON'', points = 3, timestamp = ''2020-10-31T11:00:00Z''\<rparr>]"
  by (simp add: large_grants_def handler_defs)

lemma large_and_negative_grants_rows:
  "rows large_and_negative_grants =
    [\<lparr>id' = 1, payer = ''DANNON'', points = 9007199254740992,
       timestamp = ''2020-10-31T10:00:00Z''\<rparr>,
     \<lparr>id' = 2, payer = ''DANNON'', points = 1, timestamp = ''2020-10-31T11:00:00Z''\<rparr>,
     \<lparr>id' = 3, payer = ''DANNON'', points = - 9007199254740992,
       timestamp = ''2020-10-31T12:00:00Z''\<rparr>,
     \<lparr>id' = 4, payer = ''DANNON'', points = - 5, timestamp = ''2020-10-31T13:00:00Z''\<rparr>]"
  by (simp add: large_and_negative_grants_def handler_defs)

lemma large_odd_total_rows:
  "rows large_odd_total =
    [\<lparr>id' = 1, payer = ''DANNON'', points = 9007199254740994,
       timestamp = ''2020-10-31T10:00:00Z''\<rparr>,
     \<lparr>id' = 2, payer = ''UNILEVER'', points = 1, timestamp = ''2020-10-31T11:00:00Z''\<rparr>]"
  by (simp add: large_odd_total_def handler_defs)

lemma large_two_payers_rows:
  "rows large_two_payers =
    [\<lparr>id' = 1, payer = ''DANNON'', points = 9007199254740992,
       timestamp = ''2020-10-31T10:00:00Z''\<rparr>,
     \<lparr>id' = 2, payer = ''DANNON'', points = 1, timestamp = ''2020-10-31T11:00:00Z''\<rparr>,
     \<lparr>id' = 3, payer = ''UNILEVER'', points = 10, timestamp = ''2020-10-31T12:00:00Z''\<rparr>]"
  by (simp add: large_two_payers_def handler_defs)

text \<open>The numbers of these ledgers and of the requests made to them are doubles.\<close>

lemma doubles:
  "is_double 9007199254740992" "is_double 9007199254740994" "is_double 9007199254740996"
  "is_double (- 9007199254740992)" "is_double 1" "is_double 3" "is_double 10"
  "is_double (- 5)" "is_double (- 4)"
  by (simp_all add: is_double_def round53_def nearest_def scale.simps)

subsection \<open>Insufficient points, negative amounts, oldest first\<close>

text \<open>
  Claim C2 says that a request for more than the ledger holds is refused and changes
  nothing. The handler adds doubles: with grants of \<open>2^53\<close> and 3 points the total
  \<open>2^53 + 3\<close> is no double and rounds to \<open>2^53 + 4\<close>, so a request for
  \<open>2^53 + 4 = 9007199254740996\<close> points, more than the ledger holds, is answered 200 and
  takes all points of both grants.
\<close>

theorem large_grants_counterexample:
  "total_points (rows large_grants) < 9007199254740996
   \<and> spendable (rows large_grants) < 9007199254740996
   \<and> post_spend large_grants (Some 9007199254740996)
     = (\<lparr>rows =
          [\<lparr>id' = 1, payer = ''DANNON'', points = 0, timestamp = ''2020-10-31T10:00:00Z''\<rparr>,
           \<lparr>id' = 2, payer = ''DANNON'', points = 0, timestamp = ''2020-10-31T11:00:00Z''\<rparr>],
         journal =
          [INSERT_POINTS_SQL ''DANNON'' 9007199254740992 ''2020-10-31T10:00:00Z'',
           INSERT_POINTS_SQL ''DANNON'' 3 ''2020-10-31T11:00:00Z'',
           GET_POINTS_SQL, UPDATE_POINTS_SQL 0 1, UPDATE_POINTS_SQL 0 2]\<rparr>,
        Response 200 (Payer_points [(''DANNON'', Num (- 9007199254740996))]))"
  by (simp add: large_grants_def total_points_def spendable_def handler_defs rounding_defs)

text \<open>
  Claim C2, amended. On a ledger whose points, taken by magnitude, add up to at most
  \<open>2^53\<close>, a request that passes validation and asks for more than the ledger holds is
  answered with status 400 and the plain-text message, and no row changes: the store is
  the one before, with one more read in its journal. The ledger's total is the sum of
  all points; the sum over the rows with positive points is never smaller, so the same
  holds when that sum is below the request.
\<close>

theorem spend_insufficient_unchanged:
  assumes "\<not> falsy_number body_points"
    and "safe (rows db)"
    and "total_points (rows db) < the body_points \<or> spendable (rows db) < the body_points"
  shows "post_spend db body_points
      = (db\<lparr>journal := journal db @ [GET_POINTS_SQL]\<rparr>,
         Response 400 (Text ''The user doesn't have enough points!''))
    \<and> rows (fst (post_spend db body_points)) = rows db"
proof -
  from assms(1) obtain n where n: "body_points = Some n" "n \<noteq> 0"
    by (cases body_points) auto
  from assms(3) n total_le_spendable [of "rows db"] have "total_points (rows db) < n"
    by auto
  from post_spend_insufficient [OF n(2) assms(2) this] n(1) show ?thesis by simp
qed

theorem spend_insufficient_unchanged_witness:
  "post_spend \<lparr>rows = [\<lparr>id' = 1, payer = ''DANNON'', points = 100, timestamp = ''2020-11-02T14:00:00Z''\<rparr>],
               journal = []\<rparr> (Some 150)
     = (\<lparr>rows = [\<lparr>id' = 1, payer = ''DANNON'', points = 100, timestamp = ''2020-11-02T14:00:00Z''\<rparr>],
         journal = [GET_POINTS_SQL]\<rparr>,
        Response 400 (Text ''The user doesn't have enough points!''))"
  using spend_insufficient_unchanged [of "Some 150"
      "\<lparr>rows = [\<lparr>id' = 1, payer = ''DANNON'', points = 100, timestamp = ''2020-11-02T14:00:00Z''\<rparr>],
        journal = []\<rparr>"]
  by (simp add: total_points_def safe_def magnitude_def)

text \<open>
  Claim C9 says that a negative amount which the ledger's total is not below is answered
  200 with the empty list. The total is a sum of doubles taken from the left: with grants
  of \<open>2^53\<close>, 1, \<open>-2^53\<close> and -5 points the exact total is -4, but \<open>2^53 + 1\<close> rounds
  to \<open>2^53\<close> and the handler's total is -5, so a request for -4 points is answered with
  the insufficient-points 400.
\<close>

theorem large_and_negative_grants_counterexample:
  "- 4 \<le> total_points (rows large_and_negative_grants)
   \<and> snd (post_spend large_and_negative_grants (Some (- 4)))
     = Response 400 (Text ''The user doesn't have enough points!'')"
  by (simp add: large_and_negative_grants_def total_points_def handler_defs rounding_defs)

text \<open>
  Claim C9, amended. On a ledger whose points, taken by magnitude, add up to at most
  \<open>2^53\<close>: a strictly negative amount is truthy, so it passes validation; when the
  ledger's total is not below it, the loop stops at once: the answer is 200 with the
  empty list, the rows are untouched, and the only statement executed is the read.
\<close>

theorem negative_spend_is_empty_success:
  assumes "n < 0" and "safe (rows db)" and "n \<le> total_points (rows db)"
  shows "post_spend db (Some n)
      = (db\<lparr>journal := journal db @ [GET_POINTS_SQL]\<rparr>, Response 200 (Payer_points []))"
proof -
  from assms have "n \<noteq> 0" "\<not> total_points (rows db) < n" by simp_all
  from post_spend_sufficient [OF this(1) assms(2) this(2)] assms(1) show ?thesis
    by (simp add: allocate_nonpos apply_plan_Nil summarise_Nil Object_entries_Nil db_all_def)
qed

theorem negative_spend_is_empty_success_witness:
  "post_spend \<lparr>rows = [\<lparr>id' = 1, payer = ''DANNON'', points = 100, timestamp = ''2020-11-02T14:00:00Z''\<rparr>],
               journal = []\<rparr> (Some (- 5))
     = (\<lparr>rows = [\<lparr>id' = 1, payer = ''DANNON'', points = 100, timestamp = ''2020-11-02T14:00:00Z''\<rparr>],
         journal = [GET_POINTS_SQL]\<rparr>,
        Response 200 (Payer_points []))"
  using negative_spend_is_empty_success [of "- 5"
      "\<lparr>rows = [\<lparr>id' = 1, payer = ''DANNON'', points = 100, timestamp = ''2020-11-02T14:00:00Z''\<rparr>],
        journal = []\<rparr>"]
  by (simp add: total_points_def safe_def magnitude_def)

text \<open>
  Claim C3 says that the older of two grants is consumed first. The snapshot is ordered
  by the texts of the timestamps, compared bytewise, and that is the order of the
  instants only among timestamps written in one format. With a grant at
  \<^verbatim>\<open>2020-11-02T14:00:00Z\<close> and a grant 999 milliseconds later, written
  \<^verbatim>\<open>2020-11-02T14:00:00.999Z\<close>, the later text comes first (\<^verbatim>\<open>.\<close> is below \<^verbatim>\<open>Z\<close>): a
  spend of 5 points takes them from the newer grant and leaves the older one untouched.
\<close>

theorem newer_grant_spent_first:
  "post_spend fractional_seconds (Some 5)
     = (\<lparr>rows =
          [\<lparr>id' = 1, payer = ''DANNON'', points = 5, timestamp = ''2020-11-02T14:00:00Z''\<rparr>,
           \<lparr>id' = 2, payer = ''UNILEVER'', points = 0,
              timestamp = ''2020-11-02T14:00:00.999Z''\<rparr>],
         journal =
          [INSERT_POINTS_SQL ''DANNON'' 5 ''2020-11-02T14:00:00Z'',
           INSERT_POINTS_SQL ''UNILEVER'' 5 ''2020-11-02T14:00:00.999Z'',
           GET_POINTS_SQL, UPDATE_POINTS_SQL 0 2]\<rparr>,
        Response 200 (Payer_points [(''UNILEVER'', Num (- 5))]))"
  by (simp add: fractional_seconds_def handler_defs exact_arith)

text \<open>
  In the order of the timestamp texts the loop does go oldest first, whatever the payers
  and however large the numbers: in a successful spend, for rows \<open>A\<close> and \<open>B\<close> with
  positive points and the timestamp text of \<open>A\<close> below that of \<open>B\<close>, either \<open>A\<close> ends
  with 0 points or \<open>B\<close> keeps all of its points.
\<close>

lemma oldest_first_in_text_order:
  assumes "wf_db db"
    and "post_spend db body_points = (db1, Response 200 bd)"
    and "A \<in> set (rows db)" and "B \<in> set (rows db)"
    and "timestamp A < timestamp B" and "0 < points A" and "0 < points B"
  shows "points_of db1 (id' A) = Some 0 \<or> points_of db1 (id' B) = Some (points B)"
proof -
  let ?xs = "snd (db_all db)"
  from assms(2) have truthy: "\<not> falsy_number body_points"
    by (auto simp: post_spend_falsy)
  then obtain n where n: "body_points = Some n" "n \<noteq> 0"
    by (cases body_points) auto
  let ?plan = "allocate ?xs n"
  from assms(2) n(1) post_spend_some [OF n(2), of db]
  have db1: "db1 = apply_plan ?plan (fst (db_all db))"
    by (simp split: if_splits)
  have rows1: "rows db1 = map (settle ?plan) (rows db)"
    unfolding db1 by (rule rows_spent [OF assms(1)])
  have dist: "distinct (map id' ?xs)" by (rule distinct_ids_snapshot [OF assms(1)])
  have wf: "distinct (map id' (rows db))" using assms(1) by (simp add: wf_db_def)
  have after: "points_of db1 (id' r) = Some (points (settle ?plan r))" if "r \<in> set (rows db)" for r
  proof -
    have "points_of \<lparr>rows = map (settle ?plan) (rows db), journal = journal db1\<rparr> (id' r)
        = Some (points (settle ?plan r))"
      by (rule points_of_mapped [OF wf that]) (rule id_settle)
    then show ?thesis by (simp add: points_of_def rows1)
  qed
  show ?thesis
  proof (cases "B \<in> fst ` set ?plan")
    case True
    then obtain d where d: "(B, d) \<in> set ?plan" by force
    have "A \<in> set ?xs" "B \<in> set ?xs"
      using assms(3,4) by (simp_all add: set_snapshot)
    from sorted_before [OF sorted_snapshot this assms(5)]
    obtain us ws where split: "?xs = us @ B # ws" and A: "A \<in> set us"
      by blast
    from dist have "distinct ?xs" by (simp add: distinct_map)
    with split have "distinct (us @ B # ws)" by simp
    from allocate_oldest_first [OF this _ A assms(6), of d n] d split
    have "(A, points A) \<in> set ?plan" by simp
    from settle_in [OF dist this] have "points (settle ?plan A) = 0" by (simp add: js_sub_self)
    with after [OF assms(3)] show ?thesis by simp
  next
    case False
    from assms(4) have "B \<in> set ?xs" by (simp add: set_snapshot)
    from settle_out [OF dist this False] after [OF assms(4)] show ?thesis by simp
  qed
qed

lemma oldest_first_scenario1:
  "points_of (fst (post_spend scenario1 (Some 5000))) 2 = Some 0
   \<and> points_of (fst (post_spend scenario1 (Some 5000))) 4 = Some 5500
   \<and> points_of (fst (post_spend scenario1 (Some 5000))) 3 = Some 10000"
proof -
  let ?U = "\<lparr>id' = 2, payer = ''UNILEVER'', points = 200, timestamp = ''2020-10-31T11:00:00Z''\<rparr>"
  let ?M = "\<lparr>id' = 4, payer = ''MILLER COORS'', points = 10000, timestamp = ''2020-11-01T14:00:00Z''\<rparr>"
  let ?db1 = "fst (post_spend scenario1 (Some 5000))"
  let ?bd = "Payer_points
       [(''DANNON'', Num (- 300)), (''UNILEVER'', Num (- 200)), (''MILLER COORS'', Num (- 4500))]"
  have wf: "wf_db scenario1" by (simp add: wf_db_def scenario1_rows)
  have run: "post_spend scenario1 (Some 5000) = (?db1, Response 200 ?bd)"
    using scenario1_spend by (simp add: prod_eq_iff)
  have mem: "?U \<in> set (rows scenario1)" "?M \<in> set (rows scenario1)"
    by (simp_all add: scenario1_rows)
  have older: "timestamp ?U < timestamp ?M" by simp
  have pos: "0 < points ?U" "0 < points ?M" by simp_all
  have after: "points_of ?db1 4 = Some 5500" "points_of ?db1 3 = Some 10000"
    by (simp_all add: points_of_def scenario1_spend)
  from oldest_first_in_text_order [OF wf run mem older pos] after(1)
  have "points_of ?db1 2 = Some 0" by simp
  with after show ?thesis by simp
qed

text \<open>
  Claim C10 says that a request that passes validation is refused as insufficient exactly
  when the sum of all points is below the requested amount. The handler's total is a
  rounded sum: with grants of \<open>2^53 + 2\<close> points and 1 point the sum \<open>2^53 + 3\<close> rounds
  to \<open>2^53 + 4\<close>, and a request for \<open>2^53 + 4 = 9007199254740996\<close> points, above the
  sum, is not refused.
\<close>

theorem large_odd_total_counterexample:
  "total_points (rows large_odd_total) < 9007199254740996
   \<and> snd (post_spend large_odd_total (Some 9007199254740996))
     = Response 200
         (Payer_points [(''DANNON'', Num (- 9007199254740994)), (''UNILEVER'', Num (- 1))])"
  by (simp add: large_odd_total_def total_points_def handler_defs rounding_defs)

text \<open>
  Claim C10, amended. On a ledger whose points, taken by magnitude, add up to at most
  \<open>2^53\<close>, a request that passes validation is answered with the insufficient-points 400
  exactly when the sum of the points of all rows, rows with zero or negative points
  included, is below the requested amount. So a ledger with a row of negative points can
  refuse a request that its rows of positive points alone would cover: with grants of
  100 and -50 points, a request for 80 is refused.
\<close>

theorem insufficient_iff_total_below:
  "(\<not> falsy_number body_points \<and> safe (rows db) \<longrightarrow>
      (snd (post_spend db body_points) = Response 400 (Text ''The user doesn't have enough points!'')
        \<longleftrightarrow> total_points (rows db) < the body_points))
   \<and> (\<exists>ledger n. safe (rows ledger) \<and> (\<exists>r \<in> set (rows ledger). points r < 0)
         \<and> n \<le> spendable (rows ledger)
         \<and> snd (post_spend ledger (Some n))
             = Response 400 (Text ''The user doesn't have enough points!''))"
proof
  show "\<not> falsy_number body_points \<and> safe (rows db) \<longrightarrow>
      (snd (post_spend db body_points) = Response 400 (Text ''The user doesn't have enough points!'')
        \<longleftrightarrow> total_points (rows db) < the body_points)"
  proof
    assume a: "\<not> falsy_number body_points \<and> safe (rows db)"
    then obtain n where n: "body_points = Some n" "n \<noteq> 0"
      by (cases body_points) auto
    from a have safe: "safe (rows db)" by simp
    show "snd (post_spend db body_points) = Response 400 (Text ''The user doesn't have enough points!'')
        \<longleftrightarrow> total_points (rows db) < the body_points"
    proof (cases "total_points (rows db) < n")
      case True
      from post_spend_insufficient [OF n(2) safe True] n(1) True show ?thesis by simp
    next
      case False
      from post_spend_sufficient [OF n(2) safe False] n(1) False show ?thesis by simp
    qed
  qed
next
  let ?ledger = "\<lparr>rows = [\<lparr>id' = 1, payer = ''DANNON'', points = 100, timestamp = ''2020-10-31T10:00:00Z''\<rparr>,
                          \<lparr>id' = 2, payer = ''DANNON'', points = - 50, timestamp = ''2020-10-31T11:00:00Z''\<rparr>],
                  journal = []\<rparr>"
  have "safe (rows ?ledger) \<and> (\<exists>r \<in> set (rows ?ledger). points r < 0)
         \<and> 80 \<le> spendable (rows ?ledger)
         \<and> snd (post_spend ?ledger (Some 80))
             = Response 400 (Text ''The user doesn't have enough points!'')"
    by (simp add: spendable_def safe_def magnitude_def handler_defs exact_arith)
  then show "\<exists>ledger n. safe (rows ledger) \<and> (\<exists>r \<in> set (rows ledger). points r < 0)
         \<and> n \<le> spendable (rows ledger)
         \<and> snd (post_spend ledger (Some n))
             = Response 400 (Text ''The user doesn't have enough points!'')"
    by blast
qed

theorem insufficient_iff_total_below_witness:
  "snd (post_spend scenario1 (Some 20501)) = Response 400 (Text ''The user doesn't have enough points!'')
   \<and> snd (post_spend scenario1 (Some 20500)) \<noteq> Response 400 (Text ''The user doesn't have enough points!'')"
  using insufficient_iff_total_below [of "Some 20501" scenario1]
    insufficient_iff_total_below [of "Some 20500" scenario1]
  by (simp add: total_points_def safe_def magnitude_def scenario1_rows)

section \<open>Validation\<close>

text \<open>
  Claim C5 says that a zero or negative amount is rejected by validation before the
  allocation runs and before any store access. The check is \<^verbatim>\<open>!points\<close>, and a
  negative number is truthy: on the empty ledger a request for -5 points reads the
  store and is answered 200 with the empty list.
\<close>

theorem negative_spend_counterexample:
  "post_spend empty_db (Some (- 5))
     = (\<lparr>rows = [], journal = [GET_POINTS_SQL]\<rparr>, Response 200 (Payer_points []))"
  by (simp add: handler_defs exact_arith)

text \<open>
  Claim C5, amended. A request whose amount is missing or zero is answered 400 with the
  JSON message before any store access: the store, its journal included, is the one
  before. Every other amount, a negative one included, passes validation: the answer is
  never the validation error, and the handler reads the store, so the loop runs for
  every non-zero amount.
\<close>

theorem spend_validation:
  "(falsy_number body_points \<longrightarrow>
      post_spend db body_points = (db, Response 400 (Msg ''You must specify points to spend!'')))
   \<and> (\<not> falsy_number body_points \<longrightarrow>
        snd (post_spend db body_points) \<noteq> Response 400 (Msg ''You must specify points to spend!'')
        \<and> (\<exists>updates. journal (fst (post_spend db body_points))
              = journal db @ GET_POINTS_SQL # updates))"
proof (intro conjI impI)
  assume "falsy_number body_points"
  then show "post_spend db body_points = (db, Response 400 (Msg ''You must specify points to spend!''))"
    by (rule post_spend_falsy)
next
  assume "\<not> falsy_number body_points"
  then obtain n where n: "body_points = Some n" "n \<noteq> 0"
    by (cases body_points) auto
  show "snd (post_spend db body_points) \<noteq> Response 400 (Msg ''You must specify points to spend!'')"
    using post_spend_some [OF n(2), of db] n(1) by simp
next
  assume "\<not> falsy_number body_points"
  then obtain n where n: "body_points = Some n" "n \<noteq> 0"
    by (cases body_points) auto
  show "\<exists>updates. journal (fst (post_spend db body_points)) = journal db @ GET_POINTS_SQL # updates"
    using post_spend_some [OF n(2), of db] n(1)
    by (simp add: journal_apply_plan db_all_def)
qed

theorem spend_validation_witness:
  "post_spend scenario1 (Some 0) = (scenario1, Response 400 (Msg ''You must specify points to spend!''))
   \<and> post_spend scenario1 None = (scenario1, Response 400 (Msg ''You must specify points to spend!''))
   \<and> snd (post_spend scenario1 (Some (- 5))) \<noteq> Response 400 (Msg ''You must specify points to spend!'')"
  using spend_validation [of "Some 0" scenario1] spend_validation [of None scenario1]
    spend_validation [of "Some (- 5)" scenario1]
  by simp

text \<open>The id of a new row is not the id of any row of the table.\<close>

lemma fold_max_upper: "x \<in> set xs \<Longrightarrow> x \<le> fold max xs (a::nat)"
proof (induction xs arbitrary: a)
  case Nil
  then show ?case by simp
next
  case (Cons y ys)
  have mono: "b \<le> fold max ys b" for b :: nat
    by (induction ys arbitrary: b) (auto intro: order_trans [OF max.cobounded2])
  from Cons show ?case
    by (auto intro: order_trans [OF max.cobounded1 mono])
qed

lemma fresh_id: "Suc (fold max (map id' rs) 0) \<notin> id' ` set rs"
proof
  assume "Suc (fold max (map id' rs) 0) \<in> id' ` set rs"
  then have "Suc (fold max (map id' rs) 0) \<in> set (map id' rs)" by simp
  from fold_max_upper [OF this, of 0] show False by simp
qed

text \<open>
  Claim C8. \<^verbatim>\<open>/add\<close> checks payer, points and timestamp in this order; a field counts
  as missing when it is falsy, so points of exactly 0 are missing (and so is an empty
  payer or timestamp). The first missing field is named in a 400 answer and the store,
  its journal included, is the one before. Otherwise one row with the three fields is
  inserted under an id that no row had, and the answer is 200 with the message and that
  id.
\<close>

theorem add_validates_then_inserts:
  "(falsy_string payer' \<longrightarrow>
      post_add db payer' points' timestamp' = (db, Response 400 (Msg ''You must specify a payer!'')))
   \<and> (\<not> falsy_string payer' \<and> falsy_number points' \<longrightarrow>
        post_add db payer' points' timestamp'
          = (db, Response 400 (Msg ''You must specify points to add!'')))
   \<and> (\<not> falsy_string payer' \<and> \<not> falsy_number points' \<and> falsy_string timestamp' \<longrightarrow>
        post_add db payer' points' timestamp'
          = (db, Response 400 (Msg ''You must specify a timestamp!'')))
   \<and> (\<not> falsy_string payer' \<and> \<not> falsy_number points' \<and> \<not> falsy_string timestamp' \<longrightarrow>
        (\<exists>i. i \<notin> id' ` set (rows db)
           \<and> post_add db payer' points' timestamp'
             = (db\<lparr>rows := rows db @ [\<lparr>id' = i, payer = the payer', points = the points',
                                        timestamp = the timestamp'\<rparr>],
                   journal := journal db
                     @ [INSERT_POINTS_SQL (the payer') (the points') (the timestamp')]\<rparr>,
                Response 200 (Msg_id ''Successfully added!'' i))))
   \<and> falsy_number (Some 0)"
proof (intro conjI impI)
  assume "\<not> falsy_string payer' \<and> \<not> falsy_number points' \<and> \<not> falsy_string timestamp'"
  then have "post_add db payer' points' timestamp'
      = (db\<lparr>rows := rows db @ [\<lparr>id' = Suc (fold max (map id' (rows db)) 0), payer = the payer',
                                  points = the points', timestamp = the timestamp'\<rparr>],
            journal := journal db
              @ [INSERT_POINTS_SQL (the payer') (the points') (the timestamp')]\<rparr>,
         Response 200 (Msg_id ''Successfully added!'' (Suc (fold max (map id' (rows db)) 0))))"
    by (simp add: post_add_def db_get_def)
  with fresh_id [of "rows db"]
  show "\<exists>i. i \<notin> id' ` set (rows db)
           \<and> post_add db payer' points' timestamp'
             = (db\<lparr>rows := rows db @ [\<lparr>id' = i, payer = the payer', points = the points',
                                        timestamp = the timestamp'\<rparr>],
                   journal := journal db
                     @ [INSERT_POINTS_SQL (the payer') (the points') (the timestamp')]\<rparr>,
                Response 200 (Msg_id ''Successfully added!'' i))"
    by blast
qed (simp_all add: post_add_def)

theorem add_validates_then_inserts_witness:
  "post_add empty_db None (Some 5) (Some ''2020-11-02T14:00:00Z'')
      = (empty_db, Response 400 (Msg ''You must specify a payer!''))
   \<and> post_add empty_db (Some ''DANNON'') (Some 0) (Some ''2020-11-02T14:00:00Z'')
      = (empty_db, Response 400 (Msg ''You must specify points to add!''))
   \<and> post_add empty_db (Some ''DANNON'') (Some 5) None
      = (empty_db, Response 400 (Msg ''You must specify a timestamp!''))
   \<and> snd (post_add empty_db (Some ''DANNON'') (Some 5) (Some ''2020-11-02T14:00:00Z''))
      = Response 200 (Msg_id ''Successfully added!'' 1)"
  using add_validates_then_inserts [of None empty_db "Some 5" "Some ''2020-11-02T14:00:00Z''"]
    add_validates_then_inserts [of "Some ''DANNON''" empty_db "Some 0" "Some ''2020-11-02T14:00:00Z''"]
    add_validates_then_inserts [of "Some ''DANNON''" empty_db "Some 5" None]
    add_validates_then_inserts [of "Some ''DANNON''" empty_db "Some 5" "Some ''2020-11-02T14:00:00Z''"]
  by (simp add: handler_defs)

section \<open>Sequences of requests\<close>

lemma run_snoc: "run db (qs @ [q]) = fst (handle (run db qs) q)"
  by (induction qs arbitrary: db) simp_all

lemma ids_db_run: "map id' (rows (db_run db n i)) = map id' (rows db)"
  by (simp add: db_run_def comp_def if_distrib [of id'] cong: if_cong)

lemma ids_apply_plan: "map id' (rows (apply_plan plan db)) = map id' (rows db)"
  unfolding apply_plan_def
  by (induction plan arbitrary: db) (simp_all add: ids_db_run case_prod_beta)

lemma length_apply_plan: "length (rows (apply_plan plan db)) = length (rows db)"
  using ids_apply_plan [of plan db] by (rule map_eq_imp_length_eq)

lemma rows_post_add:
  "rows (fst (post_add db payer' points' timestamp')) = rows db
   \<or> (\<not> falsy_number points'
      \<and> rows (fst (post_add db payer' points' timestamp'))
        = rows db @ [\<lparr>id' = Suc (fold max (map id' (rows db)) 0), payer = the payer',
                       points = the points', timestamp = the timestamp'\<rparr>])"
  by (simp add: post_add_def db_get_def)

lemma rows_get_balance: "rows (fst (get_balance db)) = rows db"
  by (simp add: get_balance_def db_all_def)

lemma rows_post_spend:
  "rows (fst (post_spend db body_points)) = rows db
   \<or> (\<exists>n. rows (fst (post_spend db body_points))
         = rows (apply_plan (allocate (snd (db_all db)) n) (fst (db_all db))))"
proof (cases "falsy_number body_points")
  case True
  then show ?thesis by (simp add: post_spend_falsy)
next
  case False
  then obtain n where n: "body_points = Some n" "n \<noteq> 0"
    by (cases body_points) auto
  from post_spend_some [OF n(2), of db] n(1) show ?thesis
    by (auto split: if_splits)
qed

lemma wf_handle: "wf_db db \<Longrightarrow> wf_db (fst (handle db q))"
proof (cases q)
  case (Add payer' points' timestamp')
  assume "wf_db db"
  with rows_post_add [of db payer' points' timestamp'] fresh_id [of "rows db"] Add
  show ?thesis by (auto simp: wf_db_def)
next
  case (Spend body_points)
  assume "wf_db db"
  with rows_post_spend [of db body_points] Spend show ?thesis
    by (auto simp: wf_db_def ids_apply_plan db_all_def)
next
  case Balance
  assume "wf_db db"
  with Balance show ?thesis by (simp add: wf_db_def rows_get_balance)
qed

lemma wf_run: "wf_db db \<Longrightarrow> wf_db (run db qs)"
  by (induction qs arbitrary: db) (simp_all add: wf_handle)

lemma wf_empty: "wf_db empty_db"
  by (simp add: wf_db_def empty_db_def)

lemma decremented_refl: "decremented r r"
  by (simp add: decremented_def)

lemma decremented_settle:
  assumes "distinct (map id' xs)" "r \<in> set xs"
  shows "decremented r (settle (allocate xs n) r)"
proof (cases "r \<in> fst ` set (allocate xs n)")
  case True
  then obtain d where d: "(r, d) \<in> set (allocate xs n)" by force
  from allocate_mem [OF d] have "0 \<le> d" "d \<le> points r" by simp_all
  from js_sub_bounds [OF this] settle_in [OF assms(1) d] show ?thesis
    by (simp add: decremented_def)
next
  case False
  from settle_out [OF assms False] show ?thesis by (simp add: decremented_refl)
qed

lemma decremented_handle:
  assumes "wf_db db"
  shows "list_all2 decremented (rows db) (take (length (rows db)) (rows (fst (handle db q))))"
proof (cases q)
  case (Add payer' points' timestamp')
  with rows_post_add [of db payer' points' timestamp'] show ?thesis
    by (auto simp: list_all2_same decremented_refl)
next
  case (Spend body_points)
  from rows_post_spend [of db body_points]
  show ?thesis
  proof
    assume "rows (fst (post_spend db body_points)) = rows db"
    with Spend show ?thesis by (simp add: list_all2_same decremented_refl)
  next
    assume "\<exists>n. rows (fst (post_spend db body_points))
         = rows (apply_plan (allocate (snd (db_all db)) n) (fst (db_all db)))"
    then obtain n where "rows (fst (post_spend db body_points))
         = map (settle (allocate (snd (db_all db)) n)) (rows db)"
      using rows_spent [OF assms] by auto
    moreover have "decremented r (settle (allocate (snd (db_all db)) n) r)"
      if "r \<in> set (rows db)" for r
      using decremented_settle [OF distinct_ids_snapshot [OF assms], of r n] that
      by (simp add: set_snapshot)
    ultimately show ?thesis using Spend
      by (simp add: list_all2_map2 list_all2_same)
  qed
next
  case Balance
  then show ?thesis by (simp add: rows_get_balance list_all2_same decremented_refl)
qed

lemma nonneg_handle:
  assumes "wf_db db" "\<forall>r \<in> set (rows db). 0 \<le> points r" "nonneg_add q"
  shows "\<forall>r \<in> set (rows (fst (handle db q))). 0 \<le> points r"
proof (cases q)
  case (Add payer' points' timestamp')
  from rows_post_add [of db payer' points' timestamp']
  show ?thesis
  proof
    assume "rows (fst (post_add db payer' points' timestamp')) = rows db"
    with assms(2) Add show ?thesis by simp
  next
    assume new: "\<not> falsy_number points'
      \<and> rows (fst (post_add db payer' points' timestamp'))
        = rows db @ [\<lparr>id' = Suc (fold max (map id' (rows db)) 0), payer = the payer',
                       points = the points', timestamp = the timestamp'\<rparr>]"
    then obtain n where "points' = Some n" by (cases points') auto
    with assms(3) Add have "0 \<le> the points'" by simp
    with new assms(2) Add show ?thesis by auto
  qed
next
  case (Spend body_points)
  have "0 \<le> points r1" if "r1 \<in> set (rows (fst (handle db q)))" for r1
  proof -
    from that obtain i where i: "i < length (rows (fst (handle db q)))"
      and r1: "r1 = rows (fst (handle db q)) ! i"
      by (auto simp: in_set_conv_nth)
    from decremented_handle [OF assms(1), of q]
    have len: "length (rows db) = min (length (rows (fst (handle db q)))) (length (rows db))"
      and each: "\<And>j. j < length (rows db) \<Longrightarrow>
          decremented (rows db ! j) (take (length (rows db)) (rows (fst (handle db q))) ! j)"
      by (auto simp: list_all2_conv_all_nth)
    have same: "length (rows (fst (handle db q))) = length (rows db)"
      using rows_post_spend [of db body_points] Spend
      by (auto simp: length_apply_plan db_all_def)
    with i have j: "i < length (rows db)" by simp
    from each [OF j] j r1 have "decremented (rows db ! i) r1" by simp
    moreover from assms(2) j have "0 \<le> points (rows db ! i)" by simp
    ultimately show ?thesis by (simp add: decremented_def)
  qed
  then show ?thesis by blast
next
  case Balance
  with assms(2) show ?thesis by (simp add: rows_get_balance)
qed

lemma nonneg_run:
  assumes "wf_db db" "\<forall>r \<in> set (rows db). 0 \<le> points r" "\<forall>q \<in> set qs. nonneg_add q"
  shows "\<forall>r \<in> set (rows (run db qs)). 0 \<le> points r"
  using assms
proof (induction qs arbitrary: db)
  case Nil
  then show ?case by simp
next
  case (Cons q qs)
  have "\<forall>r \<in> set (rows (run (fst (handle db q)) qs)). 0 \<le> points r"
  proof (rule Cons.IH)
    show "wf_db (fst (handle db q))" by (rule wf_handle [OF Cons.prems(1)])
    show "\<forall>r \<in> set (rows (fst (handle db q))). 0 \<le> points r"
      using Cons.prems by (intro nonneg_handle) simp_all
    show "\<forall>q \<in> set qs. nonneg_add q" using Cons.prems(3) by simp
  qed
  then show ?case by simp
qed

text \<open>
  Claim C4 says that no grant ever holds a negative number of points. \<^verbatim>\<open>/add\<close> checks
  that points are present and not zero, not their sign: one addition of -200 points
  creates a grant of -200 points.
\<close>

theorem add_negative_counterexample:
  "map points (rows (run empty_db [Add (Some ''DANNON'') (Some (- 200)) (Some ''2020-10-31T15:00:00Z'')]))
     = [- 200]"
  by (simp add: handler_defs)

text \<open>
  Claim C4, amended. Starting from the empty ledger, if no addition carries a negative
  number of points, then after any sequence of requests no grant holds a negative number
  of points. And in every sequence, whatever it adds, a further request leaves each
  grant that exists its id, payer and timestamp, and its points either as they are or
  smaller, never below zero and never larger; a grant created with negative points keeps
  them. New grants only come last.
\<close>

theorem points_never_negative:
  "((\<forall>q \<in> set qs. nonneg_add q) \<longrightarrow> (\<forall>r \<in> set (rows (run empty_db qs)). 0 \<le> points r))
   \<and> list_all2 decremented (rows (run empty_db qs))
        (take (length (rows (run empty_db qs))) (rows (run empty_db (qs @ [q]))))"
proof
  show "(\<forall>q \<in> set qs. nonneg_add q) \<longrightarrow> (\<forall>r \<in> set (rows (run empty_db qs)). 0 \<le> points r)"
    using nonneg_run [OF wf_empty, of qs] by (simp add: empty_db_def)
  show "list_all2 decremented (rows (run empty_db qs))
        (take (length (rows (run empty_db qs))) (rows (run empty_db (qs @ [q]))))"
    unfolding run_snoc by (rule decremented_handle [OF wf_run [OF wf_empty]])
qed

theorem points_never_negative_witness:
  "map points (rows (run empty_db
      [Add (Some ''DANNON'') (Some 300) (Some ''2020-10-31T10:00:00Z''),
       Add (Some ''UNILEVER'') (Some 200) (Some ''2020-10-31T11:00:00Z''),
       Spend (Some 400), Balance])) = [0, 100]
   \<and> map points (rows (run empty_db
      ([Add (Some ''DANNON'') (Some 300) (Some ''2020-10-31T10:00:00Z''),
        Add (Some ''UNILEVER'') (Some 200) (Some ''2020-10-31T11:00:00Z''),
        Spend (Some 400), Balance] @ [Spend (Some 50)]))) = [0, 50]"
  using points_never_negative [of
      "[Add (Some ''DANNON'') (Some 300) (Some ''2020-10-31T10:00:00Z''),
        Add (Some ''UNILEVER'') (Some 200) (Some ''2020-10-31T11:00:00Z''),
        Spend (Some 400), Balance]" "Spend (Some 50)"]
  by (simp add: handler_defs exact_arith)

section \<open>The summary of a spend\<close>

lemma first_seen_cong: "set a = set b \<Longrightarrow> first_seen a xs = first_seen b xs"
proof (induction xs arbitrary: a b)
  case Nil
  then show ?case by simp
next
  case (Cons x xs)
  from Cons.prems have "set (x # a) = set (x # b)" by simp
  from Cons.IH [OF this] Cons.IH [OF Cons.prems] Cons.prems show ?case by simp
qed

lemma set_first_seen: "set (first_seen seen xs) = set xs - set seen"
  by (induction xs arbitrary: seen) auto

lemma distinct_first_seen: "distinct (first_seen seen xs)"
  by (induction xs arbitrary: seen) (auto simp: set_first_seen)

lemma negative_entries_lookup:
  assumes "negative_entries s" "map_of s k = Some v"
  obtains n where "v = Num n" "n < 0"
proof -
  from assms(2) have "(k, v) \<in> set s" by (rule map_of_SomeD)
  with assms(1) have "negative v" by (auto simp: negative_entries_def list_all_iff)
  with that show thesis by (cases v) auto
qed

lemma amount_nonpos: "negative_entries s \<Longrightarrow> amount s k \<le> 0"
  by (cases "map_of s k") (auto simp: amount_def elim!: negative_entries_lookup)

lemma summary_step_plain:
  assumes "plain k" "negative_entries s" "\<bar>amount s k - d\<bar> \<le> 2 ^ 53"
  shows "summary_step s k d = AList.update k (Num (amount s k - d)) s"
proof (cases "map_of s k")
  case None
  with assms(1) have "get_property s k = Undefined"
    by (simp add: get_property_def plain_def)
  moreover from assms(1) have "k \<noteq> ''__proto__''"
    by (auto simp: plain_def Object_prototype_def)
  ultimately show ?thesis using None
    by (simp add: summary_step_def set_property_def amount_def)
next
  case (Some v)
  with assms(2) obtain n where n: "v = Num n" "n < 0"
    by (rule negative_entries_lookup)
  with Some have "get_property s k = Own (Num n)" by (simp add: get_property_def)
  moreover from assms(1) have "k \<noteq> ''__proto__''"
    by (auto simp: plain_def Object_prototype_def)
  moreover from assms(3) Some n have "number n d (n - d) = Num (n - d)"
    by (intro number_safe) (simp add: amount_def)
  ultimately show ?thesis using Some n
    by (simp add: summary_step_def set_property_def amount_def)
qed

lemma set_update_subset: "set (AList.update k v al) \<subseteq> insert (k, v) (set al)"
  by (induction al) auto

lemma negative_entries_update:
  "negative_entries s \<Longrightarrow> m < 0 \<Longrightarrow> negative_entries (AList.update k (Num m) s)"
  using set_update_subset [of k "Num m" s]
  by (auto simp: negative_entries_def list_all_iff)

lemma amount_update:
  "amount (AList.update k (Num m) s) k' = (if k' = k then m else amount s k')"
  by (simp add: amount_def update_conv')

lemma summarise_Cons:
  "summarise ((x, d) # plan) s = summarise plan (summary_step s (payer x) d)"
  by (simp add: summarise_def)

lemma plan_total_Cons:
  "plan_total k ((x, d) # plan) = (if payer x = k then d else 0) + plan_total k plan"
  by (simp add: plan_total_def)

lemma plan_total_nonneg:
  assumes "\<And>x d. (x, d) \<in> set plan \<Longrightarrow> 0 < d"
  shows "0 \<le> plan_total k plan"
  unfolding plan_total_def
proof (rule sum_list_nonneg)
  fix v
  assume "v \<in> set (map (\<lambda>(x, d). if payer x = k then d else 0) plan)"
  then obtain y e where "(y, e) \<in> set plan" "v = (if payer y = k then e else 0)" by auto
  with assms [of y e] show "0 \<le> v" by simp
qed

text \<open>
  As long as no payer's total leaves the safe range, the summary of a plan over plain
  payer names holds, in the order of first touch, the negated totals.
\<close>

lemma summarise_plain:
  assumes "\<And>x d. (x, d) \<in> set plan \<Longrightarrow> plain (payer x) \<and> 0 < d" "negative_entries s"
    and "\<And>k. plan_total k plan - amount s k \<le> 2 ^ 53"
  shows "negative_entries (summarise plan s)
    \<and> map fst (summarise plan s) = map fst s @ first_seen (map fst s) (map (\<lambda>a. payer (fst a)) plan)
    \<and> (\<forall>k. amount (summarise plan s) k = amount s k - plan_total k plan)"
  using assms
proof (induction plan arbitrary: s)
  case Nil
  then show ?case by (simp add: summarise_def plan_total_def)
next
  case (Cons a plan)
  obtain x d where a: "a = (x, d)" by (cases a)
  let ?k = "payer x"
  let ?s = "AList.update ?k (Num (amount s ?k - d)) s"
  from Cons.prems(1) [of x d] a have pl: "plain ?k" and d: "0 < d" by simp_all
  have rest_nonneg: "0 \<le> plan_total k plan" for k
  proof (rule plan_total_nonneg)
    fix y e
    assume "(y, e) \<in> set plan"
    then show "0 < e" using Cons.prems(1) [of y e] by simp
  qed
  from amount_nonpos [OF Cons.prems(2), of ?k] d have neg: "amount s ?k - d < 0" by simp
  from Cons.prems(3) [of ?k] rest_nonneg [of ?k] have "d - amount s ?k \<le> 2 ^ 53"
    by (simp add: a plan_total_Cons)
  with neg have "\<bar>amount s ?k - d\<bar> \<le> 2 ^ 53" by simp
  then have step: "summary_step s ?k d = ?s"
    by (rule summary_step_plain [OF pl Cons.prems(2)])
  have neg': "negative_entries ?s"
    by (rule negative_entries_update [OF Cons.prems(2) neg])
  have "negative_entries (summarise plan ?s)
    \<and> map fst (summarise plan ?s) = map fst ?s @ first_seen (map fst ?s) (map (\<lambda>a. payer (fst a)) plan)
    \<and> (\<forall>k. amount (summarise plan ?s) k = amount ?s k - plan_total k plan)"
  proof (rule Cons.IH [OF _ neg'])
    fix y e
    assume "(y, e) \<in> set plan"
    then show "plain (payer y) \<and> 0 < e" using Cons.prems(1) [of y e] by simp
  next
    fix k
    from Cons.prems(3) [of k] show "plan_total k plan - amount ?s k \<le> 2 ^ 53"
      by (simp add: amount_update a plan_total_Cons split: if_splits)
  qed
  moreover have "map fst ?s @ first_seen (map fst ?s) (map (\<lambda>a. payer (fst a)) plan)
      = map fst s @ first_seen (map fst s) (map (\<lambda>a. payer (fst a)) (a # plan))"
  proof (cases "?k \<in> set (map fst s)")
    case True
    then show ?thesis by (simp add: update_keys a)
  next
    case False
    have "first_seen (map fst s @ [?k]) (map (\<lambda>a. payer (fst a)) plan)
        = first_seen (?k # map fst s) (map (\<lambda>a. payer (fst a)) plan)"
      by (rule first_seen_cong) simp
    with False show ?thesis by (simp add: update_keys a)
  qed
  moreover have "amount ?s k - plan_total k plan = amount s k - plan_total k (a # plan)" for k
    by (simp add: amount_update a plan_total_Cons)
  ultimately show ?case by (simp add: a summarise_Cons step)
qed

lemma set_own_keys: "set (own_keys ks) = set ks"
  by (auto simp: own_keys_def)

lemma distinct_own_keys: "distinct ks \<Longrightarrow> distinct (own_keys ks)"
  by (auto simp: own_keys_def)

lemma own_keys_no_index: "(\<And>k. k \<in> set ks \<Longrightarrow> array_index k = None) \<Longrightarrow> own_keys ks = ks"
proof -
  assume none: "\<And>k. k \<in> set ks \<Longrightarrow> array_index k = None"
  then have "filter (\<lambda>k. array_index k \<noteq> None) ks = []" by (simp add: filter_empty_conv)
  moreover from none have "filter (\<lambda>k. array_index k = None) ks = ks" by (simp add: filter_id_conv)
  ultimately show ?thesis by (simp add: own_keys_def)
qed

lemma keys_Object_entries: "map fst (Object_entries s) = own_keys (map fst s)"
  by (simp add: Object_entries_def comp_def)

lemma Object_entries_mem:
  assumes "(k, v) \<in> set (Object_entries s)"
  shows "map_of s k = Some v"
proof -
  from assms have k: "k \<in> set (map fst s)" and v: "v = the (map_of s k)"
    by (auto simp: Object_entries_def set_own_keys)
  from k obtain w where "map_of s k = Some w"
    by (cases "map_of s k") (auto simp: map_of_eq_None_iff)
  with v show ?thesis by simp
qed

section \<open>What a spend takes, read off the store\<close>

lemma payer_settle: "payer (settle plan r) = payer r"
  by (simp add: settle_def split: option.splits)

lemma sum_list_diff_if:
  "sum_list (map (\<lambda>r. if P r then f r else 0) rs) - sum_list (map (\<lambda>r. if P r then g r else 0) rs)
     = sum_list (map (\<lambda>r. if P r then f r - g r else (0::int)) rs)"
  by (induction rs) simp_all

lemma settle_in_safe:
  assumes "distinct (map id' xs)" "(r, d) \<in> set (allocate xs p)" "\<bar>points r\<bar> \<le> 2 ^ 53"
  shows "settle (allocate xs p) r = r\<lparr>points := points r - d\<rparr>"
proof -
  from allocate_mem [OF assms(2)] assms(3) have "\<bar>points r - d\<bar> \<le> 2 ^ 53" by simp
  then have "js_sub (points r) d = points r - d" by (rule js_sub_safe)
  with settle_in [OF assms(1,2)] show ?thesis by simp
qed

lemma points_of_spent:
  assumes "wf_db db" "r \<in> set (rows db)"
  shows "points_of (apply_plan (allocate (snd (db_all db)) n) (fst (db_all db))) (id' r)
    = Some (points (settle (allocate (snd (db_all db)) n) r))"
proof -
  let ?plan = "allocate (snd (db_all db)) n"
  let ?db1 = "apply_plan ?plan (fst (db_all db))"
  from assms(1) have wf: "distinct (map id' (rows db))" by (simp add: wf_db_def)
  have "points_of \<lparr>rows = map (settle ?plan) (rows db), journal = journal ?db1\<rparr> (id' r)
      = Some (points (settle ?plan r))"
    by (rule points_of_mapped [OF wf assms(2)]) (rule id_settle)
  then show ?thesis by (simp add: points_of_def rows_spent [OF assms(1)])
qed

lemma touched_plan:
  assumes "wf_db db" "safe (rows db)"
  shows "touched db (apply_plan (allocate (snd (db_all db)) n) (fst (db_all db)))
    = map fst (allocate (snd (db_all db)) n)"
proof -
  let ?xs = "snd (db_all db)"
  let ?plan = "allocate ?xs n"
  let ?db1 = "apply_plan ?plan (fst (db_all db))"
  have dist: "distinct (map id' ?xs)" by (rule distinct_ids_snapshot [OF assms(1)])
  then have dx: "distinct ?xs" by (simp add: distinct_map)
  have "filter (\<lambda>r. points_of ?db1 (id' r) \<noteq> Some (points r)) ?xs
      = filter (\<lambda>r. r \<in> fst ` set ?plan) ?xs"
  proof (rule filter_cong [OF refl])
    fix r
    assume r: "r \<in> set ?xs"
    then have mem: "r \<in> set (rows db)" by (simp add: set_snapshot)
    note after = points_of_spent [OF assms(1) this, of n]
    show "(points_of ?db1 (id' r) \<noteq> Some (points r)) = (r \<in> fst ` set ?plan)"
    proof (cases "r \<in> fst ` set ?plan")
      case True
      then obtain d where d: "(r, d) \<in> set ?plan" by force
      from allocate_mem [OF d] settle_in_safe [OF dist d safe_points [OF assms(2) mem]] after True
      show ?thesis by simp
    next
      case False
      from settle_out [OF dist r False] after False show ?thesis by simp
    qed
  qed
  with allocate_ids [OF dx, of n] show ?thesis by (simp add: touched_def)
qed

lemma deducted_plan:
  assumes "wf_db db" "safe (rows db)"
  shows "deducted db (apply_plan (allocate (snd (db_all db)) n) (fst (db_all db))) k
    = plan_total k (allocate (snd (db_all db)) n)"
proof -
  let ?xs = "snd (db_all db)"
  let ?plan = "allocate ?xs n"
  let ?h = "\<lambda>r. if payer r = k then points r - points (settle ?plan r) else 0"
  have dist: "distinct (map id' ?xs)" by (rule distinct_ids_snapshot [OF assms(1)])
  then have dx: "distinct ?xs" by (simp add: distinct_map)
  have "deducted db (apply_plan ?plan (fst (db_all db))) k
      = sum_list (map (\<lambda>r. if payer r = k then points r else 0) (rows db))
        - sum_list (map (\<lambda>r. if payer r = k then points (settle ?plan r) else 0) (rows db))"
    by (simp add: deducted_def payer_points_def rows_spent [OF assms(1)] comp_def payer_settle)
  also have "\<dots> = sum_list (map ?h (rows db))"
    by (rule sum_list_diff_if)
  also have "\<dots> = sum_list (map ?h ?xs)"
    by (simp add: db_all_def sum_sort_key)
  also have "\<dots> = sum_list (map ?h (filter (\<lambda>r. r \<in> fst ` set ?plan) ?xs))"
  proof (rule sum_list_map_filter [symmetric])
    fix r
    assume "r \<in> set ?xs" "r \<notin> fst ` set ?plan"
    from settle_out [OF dist this] show "?h r = 0" by simp
  qed
  also have "\<dots> = sum_list (map ?h (map fst ?plan))"
    using allocate_ids [OF dx, of n] by simp
  also have "\<dots> = sum_list (map (\<lambda>(x, d). if payer x = k then d else 0) ?plan)"
  proof (rule arg_cong [where f = sum_list])
    show "map ?h (map fst ?plan) = map (\<lambda>(x, d). if payer x = k then d else 0) ?plan"
      unfolding map_map
    proof (rule map_cong [OF refl])
      fix a
      assume a: "a \<in> set ?plan"
      obtain x d where xd: "a = (x, d)" by (cases a)
      from a xd allocate_mem [of x d ?xs n] have "x \<in> set (rows db)" by (simp add: set_snapshot)
      from settle_in_safe [OF dist a [unfolded xd] safe_points [OF assms(2) this]] xd
      show "(?h \<circ> fst) a = (case a of (x, d) \<Rightarrow> if payer x = k then d else 0)" by simp
    qed
  qed
  finally show ?thesis by (simp add: plan_total_def)
qed

lemma plan_total_le_sum:
  assumes "\<And>x d. (x, d) \<in> set plan \<Longrightarrow> 0 < d"
  shows "plan_total k plan \<le> sum_list (map snd plan)"
  using assms
proof (induction plan)
  case Nil
  then show ?case by (simp add: plan_total_def)
next
  case (Cons a plan)
  obtain x d where a: "a = (x, d)" by (cases a)
  from Cons.prems [of x d] a have "0 < d" by simp
  moreover have "plan_total k plan \<le> sum_list (map snd plan)"
  proof (rule Cons.IH)
    fix y e
    assume "(y, e) \<in> set plan"
    then show "0 < e" using Cons.prems [of y e] by simp
  qed
  ultimately show ?case by (simp add: a plan_total_Cons)
qed

lemma plan_total_le_magnitude: "plan_total k (allocate xs p) \<le> magnitude xs"
proof -
  have "plan_total k (allocate xs p) \<le> sum_list (map snd (allocate xs p))"
  proof (rule plan_total_le_sum)
    fix x d
    assume "(x, d) \<in> set (allocate xs p)"
    from allocate_mem [OF this] show "0 < d" by simp
  qed
  with allocate_sum_le [of xs p] spendable_le_magnitude [of xs]
  show ?thesis by linarith
qed

lemma plan_total_pos_iff:
  assumes "\<And>x d. (x, d) \<in> set plan \<Longrightarrow> 0 < d"
  shows "0 < plan_total k plan \<longleftrightarrow> k \<in> (\<lambda>a. payer (fst a)) ` set plan"
  using assms
proof (induction plan)
  case Nil
  then show ?case by (simp add: plan_total_def)
next
  case (Cons a plan)
  obtain x d where a: "a = (x, d)" by (cases a)
  from Cons.prems [of x d] a have d: "0 < d" by simp
  have nonneg: "0 \<le> plan_total k plan"
  proof (rule plan_total_nonneg)
    fix y e
    assume "(y, e) \<in> set plan"
    then show "0 < e" using Cons.prems [of y e] by simp
  qed
  have ih: "0 < plan_total k plan \<longleftrightarrow> k \<in> (\<lambda>a. payer (fst a)) ` set plan"
  proof (rule Cons.IH)
    fix y e
    assume "(y, e) \<in> set plan"
    then show "0 < e" using Cons.prems [of y e] by simp
  qed
  show ?case
  proof (cases "payer x = k")
    case True
    with d nonneg show ?thesis by (simp add: a plan_total_Cons)
  next
    case False
    with ih show ?thesis by (auto simp: a plan_total_Cons)
  qed
qed

section \<open>The response of a successful spend\<close>

text \<open>
  Claim C6 says that the entries of the response come in the order in which the payers
  were first touched, and that each entry is the negated total taken from the payer. The
  summary is an object, and \<^verbatim>\<open>Object.entries\<close> lists keys that are array indices first,
  by value: with the older grant under payer "2" and the newer under payer "1", the loop
  touches "2" first and the response lists "1" first. And the entries are sums of
  doubles: with grants of \<open>2^53\<close> points and 1 point under one payer and 10 points under
  another, a spend of \<open>2^53 + 2 = 9007199254740994\<close> points takes \<open>2^53 + 1\<close> points
  from the first payer and reports \<open>-2^53\<close>.
\<close>

theorem numbered_payers_counterexample:
  "snd (post_spend numbered_payers (Some 10))
     = Response 200 (Payer_points [(''1'', Num (- 5)), (''2'', Num (- 5))])
   \<and> map payer (touched numbered_payers (fst (post_spend numbered_payers (Some 10))))
     = [''2'', ''1'']
   \<and> snd (post_spend large_two_payers (Some 9007199254740994))
     = Response 200
         (Payer_points [(''DANNON'', Num (- 9007199254740992)), (''UNILEVER'', Num (- 1))])
   \<and> deducted large_two_payers (fst (post_spend large_two_payers (Some 9007199254740994)))
         ''DANNON''
     = 9007199254740993"
proof -
  have "snd (post_spend numbered_payers (Some 10))
     = Response 200 (Payer_points [(''1'', Num (- 5)), (''2'', Num (- 5))])
   \<and> map payer (touched numbered_payers (fst (post_spend numbered_payers (Some 10))))
     = [''2'', ''1'']"
    by (simp add: numbered_payers_def touched_def points_of_def handler_defs exact_arith)
  moreover have "snd (post_spend large_two_payers (Some 9007199254740994))
     = Response 200
         (Payer_points [(''DANNON'', Num (- 9007199254740992)), (''UNILEVER'', Num (- 1))])
   \<and> deducted large_two_payers (fst (post_spend large_two_payers (Some 9007199254740994)))
         ''DANNON''
     = 9007199254740993"
    by (simp add: large_two_payers_def deducted_def payer_points_def handler_defs rounding_defs)
  ultimately show ?thesis by simp
qed

text \<open>
  Claim C6, amended. On a ledger whose points, taken by magnitude, add up to at most
  \<open>2^53\<close>, when no payer from whose grants points are taken is named like a property of
  \<^verbatim>\<open>Object.prototype\<close>, the body of a successful spend holds only negative numbers, has
  exactly one entry for each payer from whose grants points were taken and none for any
  other payer, and each entry is the negated total taken from that payer. The entries
  whose payer name is an array index come first, by ascending index, and the others
  follow in the order in which the loop first touched their payers; when no payer name
  is an array index this is the order of first touch.
\<close>

theorem spend_summary_entries:
  assumes "wf_db db"
    and "safe (rows db)"
    and "post_spend db body_points = (db1, Response 200 (Payer_points es))"
    and "list_all (\<lambda>r. plain (payer r)) (touched db db1)"
  shows "negative_entries es
    \<and> distinct (map fst es)
    \<and> set (map fst es) = {k. 0 < deducted db db1 k}
    \<and> (\<forall>(k, v) \<in> set es. v = Num (- deducted db db1 k))
    \<and> map fst es = own_keys (first_seen [] (map payer (touched db db1)))
    \<and> ((\<forall>k \<in> set (map fst es). array_index k = None)
         \<longrightarrow> map fst es = first_seen [] (map payer (touched db db1)))"
proof -
  let ?xs = "snd (db_all db)"
  from assms(3) have truthy: "\<not> falsy_number body_points"
    by (auto simp: post_spend_falsy)
  then obtain n where n: "body_points = Some n" "n \<noteq> 0"
    by (cases body_points) auto
  let ?plan = "allocate ?xs n"
  let ?S = "summarise ?plan []"
  let ?first = "first_seen [] (map payer (touched db db1))"
  from assms(3) n(1) post_spend_some [OF n(2), of db]
  have db1: "db1 = apply_plan ?plan (fst (db_all db))" and es: "es = Object_entries ?S"
    by (simp_all split: if_splits)
  have touched_rows: "touched db db1 = map fst ?plan"
    unfolding db1 by (rule touched_plan [OF assms(1,2)])
  have plan_ok: "plain (payer x) \<and> 0 < d" if "(x, d) \<in> set ?plan" for x d
  proof -
    from that have "x \<in> set (touched db db1)" unfolding touched_rows by force
    with assms(4) allocate_mem [OF that] show ?thesis by (simp add: list_all_iff)
  qed
  have bound: "plan_total k ?plan - amount [] k \<le> 2 ^ 53" for k
    using plan_total_le_magnitude [of k ?xs n] assms(2)
    by (simp add: amount_def safe_def magnitude_snapshot)
  have "negative_entries []" by (simp add: negative_entries_def)
  from summarise_plain [OF plan_ok this bound]
  have negS: "negative_entries ?S"
    and keysS: "map fst ?S = first_seen [] (map (\<lambda>a. payer (fst a)) ?plan)"
    and amountS: "\<And>k. amount ?S k = - plan_total k ?plan"
    by (simp_all add: amount_def)
  have touched: "map payer (touched db db1) = map (\<lambda>a. payer (fst a)) ?plan"
    unfolding touched_rows by simp
  have taken: "deducted db db1 k = plan_total k ?plan" for k
    unfolding db1 by (rule deducted_plan [OF assms(1,2)])
  have keys: "map fst es = own_keys ?first"
    by (simp only: es keys_Object_entries keysS touched)
  have entry: "negative v \<and> v = Num (- deducted db db1 k)" if "(k, v) \<in> set es" for k v
  proof -
    from that have look: "map_of ?S k = Some v" unfolding es by (rule Object_entries_mem)
    with negS obtain m where m: "v = Num m" "m < 0" by (rule negative_entries_lookup)
    from look m have "amount ?S k = m" by (simp add: amount_def)
    with amountS [of k] taken [of k] m show ?thesis by simp
  qed
  have "negative_entries es"
    using entry by (auto simp: negative_entries_def list_all_iff)
  moreover have "distinct (map fst es)"
    unfolding keys by (rule distinct_own_keys [OF distinct_first_seen])
  moreover have "set (map fst es) = {k. 0 < deducted db db1 k}"
  proof -
    have "set (map fst es) = (\<lambda>a. payer (fst a)) ` set ?plan"
      unfolding keys by (simp add: set_own_keys set_first_seen touched)
    also have "\<dots> = {k. 0 < plan_total k ?plan}"
      using plan_total_pos_iff [of ?plan] plan_ok by blast
    finally show ?thesis by (simp add: taken)
  qed
  moreover have "\<forall>(k, v) \<in> set es. v = Num (- deducted db db1 k)"
    using entry by auto
  moreover have "(\<forall>k \<in> set (map fst es). array_index k = None) \<longrightarrow> map fst es = ?first"
  proof
    assume "\<forall>k \<in> set (map fst es). array_index k = None"
    then have "\<And>k. k \<in> set ?first \<Longrightarrow> array_index k = None"
      unfolding keys by (simp add: set_own_keys)
    from own_keys_no_index [OF this] keys show "map fst es = ?first" by simp
  qed
  ultimately show ?thesis using keys by blast
qed

theorem spend_summary_entries_witness:
  "own_keys (first_seen [] (map payer (touched scenario1 (fst (post_spend scenario1 (Some 5000))))))
     = [''DANNON'', ''UNILEVER'', ''MILLER COORS'']
   \<and> deducted scenario1 (fst (post_spend scenario1 (Some 5000))) ''DANNON'' = 300
   \<and> deducted scenario1 (fst (post_spend scenario1 (Some 5000))) ''UNILEVER'' = 200
   \<and> deducted scenario1 (fst (post_spend scenario1 (Some 5000))) ''MILLER COORS'' = 4500"
proof -
  let ?db1 = "fst (post_spend scenario1 (Some 5000))"
  let ?es = "[(''DANNON'', Num (- 300)), (''UNILEVER'', Num (- 200)), (''MILLER COORS'', Num (- 4500))]"
  have wf: "wf_db scenario1" and safe: "safe (rows scenario1)"
    using scenario1_plain by simp_all
  have run: "post_spend scenario1 (Some 5000) = (?db1, Response 200 (Payer_points ?es))"
    using scenario1_spend by (simp add: prod_eq_iff)
  have names: "list_all (\<lambda>r. plain (payer r)) (touched scenario1 ?db1)"
    by (simp add: touched_def points_of_def db_all_def scenario1_rows scenario1_spend plain_def
        Object_prototype_def)
  from spend_summary_entries [OF wf safe run names] show ?thesis by simp
qed

section \<open>Payers named like a property of Object.prototype\<close>

text \<open>
  Claim C1 says that a spend the ledger can cover succeeds with a summary whose
  magnitudes add up to the requested amount, and leaves no grant negative. The summary
  is an object literal, so a payer named like an inherited property does not start from
  \<^verbatim>\<open>undefined\<close>: with one grant of 5 points under the payer "constructor", a spend of 5
  takes the 5 points from the grant and reports \<^verbatim>\<open>NaN\<close> (in JSON, \<^verbatim>\<open>null\<close>) for the
  payer instead of -5.
\<close>

theorem spend_from_payer_constructor:
  "post_spend (run empty_db [Add (Some ''constructor'') (Some 5) (Some ''2020-11-02T14:00:00Z'')])
      (Some 5)
    = (\<lparr>rows = [\<lparr>id' = 1, payer = ''constructor'', points = 0,
                   timestamp = ''2020-11-02T14:00:00Z''\<rparr>],
        journal = [INSERT_POINTS_SQL ''constructor'' 5 ''2020-11-02T14:00:00Z'',
                   GET_POINTS_SQL, UPDATE_POINTS_SQL 0 1]\<rparr>,
       Response 200 (Payer_points [(''constructor'', NaN)]))"
  by (simp add: handler_defs exact_arith)

text \<open>
  Claim C7 says that the balance maps every payer with a grant to the sum of the points
  of its grants. The result is an object literal as well: the payer "constructor" with
  one grant of 5 points is reported with a string (the text of the inherited function
  followed by the digit 5), and the payer \<^verbatim>\<open>__proto__\<close> is not reported at all.
\<close>

theorem balance_of_payer_constructor:
  "snd (get_balance (run empty_db
      [Add (Some ''constructor'') (Some 5) (Some ''2020-11-02T14:00:00Z'')]))
    = Response 200 (Json_object [(''constructor'', Str ''constructor'' [5])])
   \<and> snd (get_balance (run empty_db
      [Add (Some ''__proto__'') (Some 5) (Some ''2020-11-02T14:00:00Z'')]))
    = Response 200 (Json_object [])"
  by (simp add: handler_defs exact_arith)

text \<open>A spend from the payer \<^verbatim>\<open>__proto__\<close> takes the points and reports nothing.\<close>

lemma spend_from_payer_proto:
  "post_spend (run empty_db [Add (Some ''__proto__'') (Some 5) (Some ''2020-11-02T14:00:00Z'')])
      (Some 5)
    = (\<lparr>rows = [\<lparr>id' = 1, payer = ''__proto__'', points = 0,
                   timestamp = ''2020-11-02T14:00:00Z''\<rparr>],
        journal = [INSERT_POINTS_SQL ''__proto__'' 5 ''2020-11-02T14:00:00Z'',
                   GET_POINTS_SQL, UPDATE_POINTS_SQL 0 1]\<rparr>,
       Response 200 (Payer_points []))"
  by (simp add: handler_defs exact_arith)

section \<open>Payers with plain names\<close>

lemma sum_list_single:
  "distinct ks \<Longrightarrow> a \<in> set ks \<Longrightarrow> sum_list (map (\<lambda>k. if a = k then d else 0) ks) = (d::int)"
proof (induction ks)
  case Nil
  then show ?case by simp
next
  case (Cons k ks)
  show ?case
  proof (cases "a = k")
    case True
    with Cons.prems have "a \<notin> set ks" by simp
    then have "sum_list (map (\<lambda>k. if a = k then d else 0) ks) = 0"
      by (induction ks) auto
    with True show ?thesis by simp
  next
    case False
    with Cons show ?thesis by simp
  qed
qed

lemma sum_plan_total:
  assumes "distinct ks" "(\<lambda>a. payer (fst a)) ` set plan \<subseteq> set ks"
  shows "sum_list (map (\<lambda>k. plan_total k plan) ks) = sum_list (map snd plan)"
  using assms(2)
proof (induction plan)
  case Nil
  then show ?case by (simp add: plan_total_def)
next
  case (Cons a plan)
  obtain x d where a: "a = (x, d)" by (cases a)
  from Cons.prems a have x: "payer x \<in> set ks" and rest: "(\<lambda>a. payer (fst a)) ` set plan \<subseteq> set ks"
    by auto
  have "sum_list (map (\<lambda>k. plan_total k (a # plan)) ks)
      = sum_list (map (\<lambda>k. (if payer x = k then d else 0) + plan_total k plan) ks)"
    by (simp add: a plan_total_Cons)
  also have "\<dots> = sum_list (map (\<lambda>k. if payer x = k then d else 0) ks)
      + sum_list (map (\<lambda>k. plan_total k plan) ks)"
    by (rule sum_list_addf)
  also have "\<dots> = d + sum_list (map snd plan)"
    by (simp only: sum_list_single [OF assms(1) x] Cons.IH [OF rest])
  finally show ?case by (simp add: a)
qed

lemma entries_of_plan:
  assumes "\<And>x d. (x, d) \<in> set plan \<Longrightarrow> plain (payer x) \<and> 0 < d"
    and "\<And>k. plan_total k plan \<le> 2 ^ 53"
  shows "map snd (Object_entries (summarise plan []))
      = map (\<lambda>k. Num (- plan_total k plan)) (map fst (Object_entries (summarise plan [])))"
    and "distinct (map fst (Object_entries (summarise plan [])))"
    and "set (map fst (Object_entries (summarise plan []))) = (\<lambda>a. payer (fst a)) ` set plan"
    and "negative_entries (Object_entries (summarise plan []))"
proof -
  let ?S = "summarise plan []"
  have bound: "plan_total k plan - amount [] k \<le> 2 ^ 53" for k
    using assms(2) [of k] by (simp add: amount_def)
  have "negative_entries []" by (simp add: negative_entries_def)
  from summarise_plain [OF assms(1) this bound]
  have negS: "negative_entries ?S"
    and keysS: "map fst ?S = first_seen [] (map (\<lambda>a. payer (fst a)) plan)"
    and amountS: "\<And>k. amount ?S k = - plan_total k plan"
    by (simp_all add: amount_def)
  have entry: "negative v \<and> v = Num (- plan_total k plan)"
    if "(k, v) \<in> set (Object_entries ?S)" for k v
  proof -
    from that have look: "map_of ?S k = Some v" by (rule Object_entries_mem)
    with negS obtain m where m: "v = Num m" "m < 0" by (rule negative_entries_lookup)
    from look m have "amount ?S k = m" by (simp add: amount_def)
    with amountS [of k] m show ?thesis by simp
  qed
  show "map snd (Object_entries ?S) = map (\<lambda>k. Num (- plan_total k plan)) (map fst (Object_entries ?S))"
    unfolding map_map
  proof (rule map_cong [OF refl])
    fix e
    assume "e \<in> set (Object_entries ?S)"
    with entry [of "fst e" "snd e"]
    show "snd e = ((\<lambda>k. Num (- plan_total k plan)) \<circ> fst) e" by simp
  qed
  show "distinct (map fst (Object_entries ?S))"
    unfolding keys_Object_entries keysS by (rule distinct_own_keys [OF distinct_first_seen])
  show "set (map fst (Object_entries ?S)) = (\<lambda>a. payer (fst a)) ` set plan"
    unfolding keys_Object_entries keysS by (simp add: set_own_keys set_first_seen)
  show "negative_entries (Object_entries ?S)"
    using entry by (auto simp: negative_entries_def list_all_iff)
qed

text \<open>
  On a ledger with plain payer names and no negative grant, whose points add up to at
  most \<open>2^53\<close>, a spend of a positive amount that the ledger covers succeeds; the
  values of its summary are negative numbers whose magnitudes add up to the amount, and
  no grant is negative afterwards.
\<close>

lemma spend_plain_total:
  assumes "wf_db db"
    and "list_all (\<lambda>r. plain (payer r)) (rows db)"
    and "list_all (\<lambda>r. 0 \<le> points r) (rows db)"
    and "0 < n" and "n \<le> total_points (rows db)"
    and "safe (rows db)"
  shows "\<exists>db1 es ms. post_spend db (Some n) = (db1, Response 200 (Payer_points es))
    \<and> map snd es = map Num ms \<and> list_all (\<lambda>m. m < 0) ms \<and> sum_list (map abs ms) = n
    \<and> list_all (\<lambda>r. 0 \<le> points r) (rows db1)"
proof -
  let ?xs = "snd (db_all db)"
  let ?plan = "allocate ?xs n"
  let ?db1 = "apply_plan ?plan (fst (db_all db))"
  let ?es = "Object_entries (summarise ?plan [])"
  let ?ms = "map (\<lambda>k. - plan_total k ?plan) (map fst ?es)"
  from assms(4,5) have "n \<noteq> 0" "\<not> total_points (rows db) < n" by simp_all
  from post_spend_sufficient [OF this(1) assms(6) this(2)]
  have run: "post_spend db (Some n) = (?db1, Response 200 (Payer_points ?es))" .
  have plan_ok: "plain (payer x) \<and> 0 < d" if "(x, d) \<in> set ?plan" for x d
  proof -
    from allocate_mem [OF that] have "x \<in> set (rows db)" "0 < d" by (simp_all add: set_snapshot)
    with assms(2) show ?thesis by (simp add: list_all_iff)
  qed
  have bound: "plan_total k ?plan \<le> 2 ^ 53" for k
    using plan_total_le_magnitude [of k ?xs n] assms(6)
    by (simp add: safe_def magnitude_snapshot)
  have small: "n \<le> 2 ^ 53"
    using assms(5,6) total_le_spendable [of "rows db"] spendable_le_magnitude [of "rows db"]
    by (simp add: safe_def)
  note facts = entries_of_plan [OF plan_ok bound]
  have numbers: "map snd ?es = map Num ?ms"
    using facts(1) by (simp add: comp_def)
  have neg: "list_all (\<lambda>m. m < 0) ?ms"
  proof -
    have iff: "0 < plan_total k ?plan \<longleftrightarrow> k \<in> (\<lambda>a. payer (fst a)) ` set ?plan" for k
    proof (rule plan_total_pos_iff)
      fix x d
      assume "(x, d) \<in> set ?plan"
      then show "0 < d" using plan_ok [of x d] by simp
    qed
    have "0 < plan_total k ?plan" if "k \<in> set (map fst ?es)" for k
      using that iff [of k] by (simp only: facts(3))
    then show ?thesis by (simp add: list_all_iff)
  qed
  have "sum_list (map abs ?ms) = sum_list (map (\<lambda>k. plan_total k ?plan) (map fst ?es))"
  proof (rule arg_cong [where f = sum_list])
    show "map abs ?ms = map (\<lambda>k. plan_total k ?plan) (map fst ?es)"
      using neg by (auto simp: list_all_iff)
  qed
  also have "\<dots> = sum_list (map snd ?plan)"
    by (rule sum_plan_total [OF facts(2) equalityD2 [OF facts(3)]])
  also have "\<dots> = min n (spendable ?xs)"
    using assms(4) small by (simp add: allocate_sum)
  also have "spendable ?xs = total_points ?xs"
    using assms(3) by (intro spendable_nonneg) (simp add: list_all_iff set_snapshot)
  also have "min n (total_points ?xs) = n"
    using assms(5) by (simp add: total_points_snapshot)
  finally have total: "sum_list (map abs ?ms) = n" .
  have "list_all (\<lambda>r. 0 \<le> points r) (rows ?db1)"
  proof -
    have "0 \<le> points (settle ?plan r)" if "r \<in> set (rows db)" for r
    proof -
      from that have "r \<in> set ?xs" by (simp add: set_snapshot)
      from decremented_settle [OF distinct_ids_snapshot [OF assms(1)] this, of n]
        assms(3) that
      show ?thesis by (simp add: decremented_def list_all_iff)
    qed
    then show ?thesis by (simp add: rows_spent [OF assms(1)] list_all_iff)
  qed
  with run numbers neg total show ?thesis by blast
qed

subsection \<open>The balance\<close>

lemma numeric_entries_lookup:
  assumes "numeric_entries s" "map_of s k = Some v"
  obtains n where "v = Num n"
proof -
  from assms(2) have "(k, v) \<in> set s" by (rule map_of_SomeD)
  with assms(1) have "numeric v" by (auto simp: numeric_entries_def list_all_iff)
  with that show thesis by (cases v) auto
qed

lemma balance_step_plain:
  assumes "plain (payer r)" "numeric_entries s" "\<bar>amount s (payer r) + points r\<bar> \<le> 2 ^ 53"
  shows "balance_step r s = AList.update (payer r) (Num (amount s (payer r) + points r)) s"
proof (cases "map_of s (payer r)")
  case None
  with assms(1) have "get_property s (payer r) = Undefined"
    by (simp add: get_property_def plain_def)
  moreover from assms(1) have "payer r \<noteq> ''__proto__''"
    by (auto simp: plain_def Object_prototype_def)
  ultimately show ?thesis using None
    by (simp add: balance_step_def set_property_def amount_def)
next
  case (Some v)
  with assms(2) obtain n where n: "v = Num n"
    by (rule numeric_entries_lookup)
  with Some have "get_property s (payer r) = Own (Num n)" by (simp add: get_property_def)
  moreover from assms(1) have "payer r \<noteq> ''__proto__''"
    by (auto simp: plain_def Object_prototype_def)
  ultimately show ?thesis using Some n assms(3)
    by (simp add: balance_step_def set_property_def amount_def number_safe)
qed

lemma numeric_entries_update:
  "numeric_entries s \<Longrightarrow> numeric_entries (AList.update k (Num m) s)"
  using set_update_subset [of k "Num m" s]
  by (auto simp: numeric_entries_def list_all_iff)

lemma fold_balance_plain:
  assumes "\<And>r. r \<in> set xs \<Longrightarrow> plain (payer r)" "numeric_entries s" "distinct (map fst s)"
    and "\<And>k. \<bar>amount s k\<bar> + magnitude xs \<le> 2 ^ 53"
  shows "distinct (map fst (fold balance_step xs s))
    \<and> (\<forall>k. map_of (fold balance_step xs s) k
          = (if k \<in> payer ` set xs \<or> k \<in> fst ` set s
             then Some (Num (amount s k + payer_points k xs)) else None))"
  using assms
proof (induction xs arbitrary: s)
  case Nil
  have "map_of s k = (if k \<in> fst ` set s then Some (Num (amount s k)) else None)" for k
  proof (cases "map_of s k")
    case None
    then show ?thesis by (simp add: map_of_eq_None_iff)
  next
    case (Some v)
    with Nil.prems(2) obtain n where "v = Num n" by (rule numeric_entries_lookup)
    with Some have "amount s k = n" "k \<in> fst ` set s"
      by (auto simp: amount_def dest: map_of_SomeD intro: rev_image_eqI)
    with Some \<open>v = Num n\<close> show ?thesis by simp
  qed
  with Nil.prems(3) show ?case by (simp add: payer_points_def)
next
  case (Cons r xs)
  let ?k = "payer r"
  let ?s = "AList.update ?k (Num (amount s ?k + points r)) s"
  from Cons.prems(1) have pl: "plain ?k" by simp
  have here: "\<bar>amount s ?k + points r\<bar> \<le> 2 ^ 53"
    using Cons.prems(4) [of ?k] magnitude_nonneg [of xs] by (simp add: magnitude_def)
  have step: "balance_step r s = ?s"
    by (rule balance_step_plain [OF pl Cons.prems(2) here])
  have num: "numeric_entries ?s" by (rule numeric_entries_update [OF Cons.prems(2)])
  have dist: "distinct (map fst ?s)" by (rule distinct_update [OF Cons.prems(3)])
  have ih: "distinct (map fst (fold balance_step xs ?s))
    \<and> (\<forall>k. map_of (fold balance_step xs ?s) k
          = (if k \<in> payer ` set xs \<or> k \<in> fst ` set ?s
             then Some (Num (amount ?s k + payer_points k xs)) else None))"
  proof (rule Cons.IH [OF _ num dist])
    fix y
    assume "y \<in> set xs"
    then show "plain (payer y)" using Cons.prems(1) [of y] by simp
  next
    fix k
    show "\<bar>amount ?s k\<bar> + magnitude xs \<le> 2 ^ 53"
      using Cons.prems(4) [of k] Cons.prems(4) [of ?k]
      by (auto simp: amount_update magnitude_def)
  qed
  have keys: "fst ` set ?s = insert ?k (fst ` set s)" by (simp add: dom_update)
  have "(if k \<in> payer ` set xs \<or> k \<in> fst ` set ?s
             then Some (Num (amount ?s k + payer_points k xs)) else None)
      = (if k \<in> payer ` set (r # xs) \<or> k \<in> fst ` set s
             then Some (Num (amount s k + payer_points k (r # xs))) else None)" for k
    unfolding keys by (auto simp: amount_update payer_points_def)
  with ih show ?case by (simp add: step)
qed

lemma map_of_Object_entries: "map_of (Object_entries s) k = map_of s k"
proof -
  have gen: "map_of (map (\<lambda>k. (k, f k)) ks) k = (if k \<in> set ks then Some (f k) else None)"
    for f :: "string \<Rightarrow> jsval" and ks
    by (induction ks) simp_all
  show ?thesis
  proof (cases "map_of s k")
    case None
    then have "k \<notin> set (own_keys (map fst s))" by (simp add: set_own_keys map_of_eq_None_iff)
    with None show ?thesis by (simp add: Object_entries_def gen)
  next
    case (Some v)
    then have "k \<in> set (own_keys (map fst s))"
      by (auto simp: set_own_keys dest: map_of_SomeD intro: rev_image_eqI)
    with Some show ?thesis by (simp add: Object_entries_def gen)
  qed
qed

lemma payer_points_snapshot: "payer_points k (snd (db_all db)) = payer_points k (rows db)"
  by (simp add: db_all_def payer_points_def sum_sort_key)

text \<open>
  On a ledger with plain payer names whose points, taken by magnitude, add up to at
  most \<open>2^53\<close>, the balance maps every payer that has a grant to the sum of the points
  of its grants, and holds no other payer.
\<close>

lemma balance_plain:
  assumes "list_all (\<lambda>r. plain (payer r)) (rows db)" and "safe (rows db)"
  shows "\<exists>es. get_balance db
        = (db\<lparr>journal := journal db @ [GET_POINTS_SQL]\<rparr>, Response 200 (Json_object es))
    \<and> distinct (map fst es)
    \<and> (\<forall>k. map_of es k
          = (if k \<in> payer ` set (rows db) then Some (Num (payer_points k (rows db))) else None))"
proof -
  let ?xs = "snd (db_all db)"
  let ?result = "fold balance_step ?xs []"
  have pl: "plain (payer r)" if "r \<in> set ?xs" for r
    using that assms(1) by (simp add: list_all_iff set_snapshot)
  have "distinct (map fst ?result)
    \<and> (\<forall>k. map_of ?result k
          = (if k \<in> payer ` set ?xs \<or> k \<in> fst ` set ([] :: object)
             then Some (Num (amount [] k + payer_points k ?xs)) else None))"
  proof (rule fold_balance_plain)
    fix r
    assume "r \<in> set ?xs"
    then show "plain (payer r)" by (rule pl)
  next
    fix k
    show "\<bar>amount [] k\<bar> + magnitude ?xs \<le> 2 ^ 53"
      using assms(2) by (simp add: amount_def safe_def magnitude_snapshot)
  qed (simp_all add: numeric_entries_def)
  then have dist: "distinct (map fst ?result)"
    and look: "\<And>k. map_of ?result k
          = (if k \<in> payer ` set (rows db) then Some (Num (payer_points k (rows db))) else None)"
    by (simp_all add: amount_def set_snapshot payer_points_snapshot)
  have "get_balance db
      = (db\<lparr>journal := journal db @ [GET_POINTS_SQL]\<rparr>,
         Response 200 (Json_object (Object_entries ?result)))"
    by (simp add: get_balance_def db_all_def)
  moreover have "distinct (map fst (Object_entries ?result))"
    unfolding keys_Object_entries by (rule distinct_own_keys [OF dist])
  moreover have "\<forall>k. map_of (Object_entries ?result) k
          = (if k \<in> payer ` set (rows db) then Some (Num (payer_points k (rows db))) else None)"
    by (simp only: map_of_Object_entries look) simp
  ultimately show ?thesis by blast
qed

text \<open>The balance of a ledger without grants is the empty object.\<close>

lemma balance_empty:
  "rows db = [] \<Longrightarrow>
     get_balance db = (db\<lparr>journal := journal db @ [GET_POINTS_SQL]\<rparr>, Response 200 (Json_object []))"
  by (simp add: get_balance_def db_all_def Object_entries_Nil)

end
